theory Spec2Isabelle
  imports Complex_Main "HOL-Library.Multiset" "HOL-Library.Word"
begin

section \<open>Loops of the source\<close>

text \<open>
  Every loop of \<^verbatim>\<open>main.cpp\<close> is a C \<^verbatim>\<open>for\<close> loop
  \<^verbatim>\<open>for (i = init; cond(i); i = next(i)) body\<close>.  A loop may run forever (a stride of
  zero, a counter that wraps around), and its body may touch memory that is not there
  (a null buffer, an index past the end of an array).  Both are part of the model:
  a run that never returns has the value \<open>None\<close>, an access outside the allocated
  memory ends the run with \<open>Some (Inl fault)\<close> (in C++ the behaviour is undefined from
  there on), a run that returns the state \<open>s\<close> is \<open>Some (Inr s)\<close>.
\<close>

datatype fault = OutOfBounds | NullDeref

partial_function (option) for_loop ::
  "('i \<Rightarrow> bool) \<Rightarrow> ('i \<Rightarrow> 'i) \<Rightarrow> ('i \<Rightarrow> 's \<Rightarrow> (fault + 's) option) \<Rightarrow> 'i \<Rightarrow> 's
     \<Rightarrow> (fault + 's) option"
where
  "for_loop cond next body i s =
     (if cond i
      then (case body i s of
              None \<Rightarrow> None
            | Some r \<Rightarrow>
                (case r of
                   Inl e \<Rightarrow> Some (Inl e)
                 | Inr s' \<Rightarrow> for_loop cond next body (next i) s'))
      else Some (Inr s))"

declare for_loop.simps [code]

text \<open>Sequencing of two steps that may diverge or fault.\<close>

definition and_then :: "(fault + 'a) option \<Rightarrow> ('a \<Rightarrow> (fault + 'b) option) \<Rightarrow> (fault + 'b) option" where
  "and_then m k = (case m of None \<Rightarrow> None | Some (Inl e) \<Rightarrow> Some (Inl e) | Some (Inr x) \<Rightarrow> k x)"

definition return :: "'a \<Rightarrow> (fault + 'a) option" where
  "return x = Some (Inr x)"

text \<open>
  \<^verbatim>\<open>unsigned\<close> is 32 bits wide: \<^verbatim>\<open>i += T\<close> on an \<^verbatim>\<open>unsigned i\<close> is addition modulo
  \<open>2 ^ 32\<close>.  \<^verbatim>\<open>int\<close> is 32 bits wide too; \<^verbatim>\<open>i += T\<close> on an \<^verbatim>\<open>int i\<close> with an
  \<^verbatim>\<open>unsigned T\<close> adds modulo \<open>2 ^ 32\<close> and reads the result back as a two's complement
  number.
\<close>

definition u32 :: "nat \<Rightarrow> nat" where
  "u32 x = x mod 2 ^ 32"

definition to_int32 :: "int \<Rightarrow> int" where
  "to_int32 x = (let m = x mod 2 ^ 32 in if m < 2 ^ 31 then m else m - 2 ^ 32)"

text \<open>
  The strided loop header \<^verbatim>\<open>for (unsigned i = t; i < STEPS; i += T)\<close> of lines 56, 74,
  107, 136 and 199, with the sample count \<^verbatim>\<open>STEPS\<close> as the parameter \<open>steps\<close>.
\<close>

definition strided_loop ::
  "nat \<Rightarrow> nat \<Rightarrow> (nat \<Rightarrow> 's \<Rightarrow> (fault + 's) option) \<Rightarrow> nat \<Rightarrow> 's \<Rightarrow> (fault + 's) option" where
  "strided_loop steps T body t s = for_loop (\<lambda>i. i < steps) (\<lambda>i. u32 (i + T)) body t s"

text \<open>
  The same header in \<^verbatim>\<open>integratePS\<close> (line 169), where \<^verbatim>\<open>auto i = t\<close> makes \<open>i\<close> an
  \<^verbatim>\<open>int\<close>.
\<close>

definition strided_loop_int ::
  "nat \<Rightarrow> nat \<Rightarrow> (int \<Rightarrow> 's \<Rightarrow> (fault + 's) option) \<Rightarrow> int \<Rightarrow> 's \<Rightarrow> (fault + 's) option" where
  "strided_loop_int steps T body t s =
     for_loop (\<lambda>i. i < int steps) (\<lambda>i. to_int32 (i + int T)) body t s"

text \<open>
  The counting loop header \<^verbatim>\<open>for (unsigned i = 0; i < n; i++)\<close> of lines 40, 112, 141,
  341 and 407.
\<close>

definition counting_loop ::
  "nat \<Rightarrow> (nat \<Rightarrow> 's \<Rightarrow> (fault + 's) option) \<Rightarrow> 's \<Rightarrow> (fault + 's) option" where
  "counting_loop n body s = for_loop (\<lambda>i. i < n) (\<lambda>i. u32 (i + 1)) body 0 s"

text \<open>
  The indices a worker visits: the strided loop with a body that only records \<open>i\<close>.
\<close>

definition worker_indices :: "nat \<Rightarrow> nat \<Rightarrow> nat \<Rightarrow> (fault + nat list) option" where
  "worker_indices steps T t = strided_loop steps T (\<lambda>i tr. return (tr @ [i])) t []"

text \<open>
  The arithmetic progression \<open>i, i + T, i + 2 T, \<dots>\<close> below \<open>n\<close>, without wrap-around:
  what the strided loop visits as long as its counter does not overflow.
\<close>

function stride_list :: "nat \<Rightarrow> nat \<Rightarrow> nat \<Rightarrow> nat list" where
  "stride_list n T i = (if 0 < T \<and> i < n then i # stride_list n T (i + T) else [])"
  by pat_completeness auto
termination
  by (relation "measure (\<lambda>(n, T, i). n - i)") auto

declare stride_list.simps [simp del]

section \<open>The integrators\<close>

text \<open>
  \<^verbatim>\<open>#define STEPS 100000000\<close>.  The integrators below take the sample count as their
  first argument \<open>steps\<close>; the program calls them at \<open>STEPS\<close>.
\<close>

definition STEPS :: nat where
  "STEPS = 100000000"

text \<open>
  The integrand of the program, \<^verbatim>\<open>double f(double x) { return x * x; }\<close> (lines 33-35).
  It is called \<open>f_sq\<close> here: \<open>f\<close> is the name of the integrand parameter of every
  integrator, as in the source.
\<close>

definition f_sq :: "'a::times \<Rightarrow> 'a" where
  "f_sq x = x * x"

text \<open>
  \<^verbatim>\<open>double\<close> is the type \<open>'a\<close> with its operations \<open>0\<close>, \<open>+\<close>, \<open>-\<close>, \<open>*\<close> and \<open>/\<close>; no law
  of arithmetic is built into the definitions.  \<open>cvt\<close> is the conversion of an integer
  to \<^verbatim>\<open>double\<close>.  In exact arithmetic \<open>'a\<close> is \<open>real\<close> and \<open>cvt\<close> is \<open>of_int\<close>.

  What a call does besides returning: \<open>threads\<close> lists the \<^verbatim>\<open>std::thread\<close>s it
  starts (by their \<open>t\<close>), \<open>samples\<close> lists for every worker, in the order in which the
  workers are run, the indices \<open>i\<close> at which it calls the integrand, in the order of
  the calls; \<open>ret\<close> is the value returned.
\<close>

record 'a run =
  threads :: "nat list"
  samples :: "int list list"
  ret :: 'a

text \<open>
  The workers of one call share nothing but the accumulator: one \<^verbatim>\<open>double\<close> behind a
  critical section, a mutex or an atomic add, or an array in which each worker has a
  slot of its own.  A run of the team is therefore modelled as the workers running to
  completion one after the other.  For the strategies with one shared \<^verbatim>\<open>double\<close>
  the order in which the workers reach it is the parameter \<open>order\<close> of the model: the
  scheduler decides it, and every permutation of the team can occur.
\<close>

primrec run_team ::
  "(nat \<Rightarrow> 's \<Rightarrow> (fault + int list \<times> 's) option) \<Rightarrow> nat list \<Rightarrow> 's
     \<Rightarrow> (fault + int list list \<times> 's) option" where
  "run_team w [] s = return ([], s)"
| "run_team w (t # ts) s =
     and_then (w t s) (\<lambda>(tr, s').
     and_then (run_team w ts s') (\<lambda>(trs, s'').
     return (tr # trs, s'')))"

text \<open>\<^verbatim>\<open>R += f(i * dx + a)\<close> (lines 41, 57, 75, 200), recording the call of \<open>f\<close>.\<close>

definition accumulate ::
  "(int \<Rightarrow> 'a::{plus,times}) \<Rightarrow> ('a \<Rightarrow> 'a) \<Rightarrow> 'a \<Rightarrow> 'a \<Rightarrow> nat \<Rightarrow> int list \<times> 'a
     \<Rightarrow> (fault + int list \<times> 'a) option" where
  "accumulate cvt f a dx i = (\<lambda>(tr, R). return (tr @ [int i], R + f (cvt (int i) * dx + a)))"

text \<open>Lines 37-45.\<close>

definition integrateDefault ::
  "nat \<Rightarrow> (int \<Rightarrow> 'a::{zero,plus,minus,times,inverse}) \<Rightarrow> 'a \<Rightarrow> 'a \<Rightarrow> ('a \<Rightarrow> 'a) \<Rightarrow> (fault + 'a run) option" where
  "integrateDefault steps cvt a b f =
     (let dx = (b - a) / cvt (int steps) in
      and_then (counting_loop steps (accumulate cvt f a dx) ([], 0)) (\<lambda>(tr, result).
      return \<lparr>threads = [], samples = [tr], ret = result * dx\<rparr>))"

text \<open>
  A worker with a private sum (lines 52-60, 73-81, 198-203):
  \<^verbatim>\<open>double R = 0; for (unsigned i = t; i < STEPS; i += T) R += f(i * dx + a); result += R;\<close>
  The last statement runs inside the critical section, under the mutex or as an atomic
  add; \<open>result\<close> is the shared accumulator as the worker finds it.
\<close>

definition private_worker ::
  "nat \<Rightarrow> (int \<Rightarrow> 'a::{zero,plus,times}) \<Rightarrow> 'a \<Rightarrow> 'a \<Rightarrow> ('a \<Rightarrow> 'a) \<Rightarrow> nat \<Rightarrow> nat \<Rightarrow> 'a
     \<Rightarrow> (fault + int list \<times> 'a) option" where
  "private_worker steps cvt a dx f T t result =
     and_then (strided_loop steps T (accumulate cvt f a dx) t ([], 0)) (\<lambda>(tr, R).
     return (tr, result + R))"

text \<open>
  Lines 47-63.  The parallel region runs with the team \<open>0, \<dots>, T - 1\<close>, where \<open>T\<close> is what
  \<^verbatim>\<open>get_num_threads()\<close> returns; \<open>order\<close> is the order in which the team enters the
  critical section.
\<close>

definition integrateCrit ::
  "nat \<Rightarrow> (int \<Rightarrow> 'a::{zero,plus,minus,times,inverse}) \<Rightarrow> 'a \<Rightarrow> 'a \<Rightarrow> ('a \<Rightarrow> 'a) \<Rightarrow> nat \<Rightarrow> nat list \<Rightarrow> (fault + 'a run) option" where
  "integrateCrit steps cvt a b f T order =
     (let dx = (b - a) / cvt (int steps) in
      and_then (run_team (private_worker steps cvt a dx f T) order 0) (\<lambda>(trs, result).
      return \<lparr>threads = [], samples = trs, ret = result * dx\<rparr>))"

text \<open>
  Lines 65-90.  One thread is started for every \<open>t\<close> in \<open>0, \<dots>, T - 1\<close>; \<open>order\<close> is the
  order in which the threads take the mutex.
\<close>

definition integrateMutex ::
  "nat \<Rightarrow> (int \<Rightarrow> 'a::{zero,plus,minus,times,inverse}) \<Rightarrow> 'a \<Rightarrow> 'a \<Rightarrow> ('a \<Rightarrow> 'a) \<Rightarrow> nat \<Rightarrow> nat list \<Rightarrow> (fault + 'a run) option" where
  "integrateMutex steps cvt a b f T order =
     (let dx = (b - a) / cvt (int steps) in
      and_then (run_team (private_worker steps cvt a dx f T) order 0) (\<lambda>(trs, result).
      return \<lparr>threads = [0..<T], samples = trs, ret = result * dx\<rparr>))"

text \<open>
  Lines 191-217.  Threads are started for \<open>t\<close> in \<open>1, \<dots>, T - 1\<close>, and the caller runs
  \<^verbatim>\<open>fun(0)\<close> itself, whatever \<open>T\<close> is; \<open>order\<close> is the order of the atomic adds.
\<close>

definition integrateAtomic ::
  "nat \<Rightarrow> (int \<Rightarrow> 'a::{zero,plus,minus,times,inverse}) \<Rightarrow> 'a \<Rightarrow> 'a \<Rightarrow> ('a \<Rightarrow> 'a) \<Rightarrow> nat \<Rightarrow> nat list \<Rightarrow> (fault + 'a run) option" where
  "integrateAtomic steps cvt a b f T order =
     (let dx = (b - a) / cvt (int steps) in
      and_then (run_team (private_worker steps cvt a dx f T) order 0) (\<lambda>(trs, result).
      return \<lparr>threads = [1..<T], samples = trs, ret = result * dx\<rparr>))"

text \<open>
  The team of \<^verbatim>\<open>integratePS\<close> and \<^verbatim>\<open>integrateAtomic\<close>: the caller as worker \<open>0\<close> and the
  threads started.
\<close>

definition caller_and_threads :: "nat \<Rightarrow> nat list" where
  "caller_and_threads T = 0 # [1..<T]"

text \<open>\<^verbatim>\<open>xs[t] += y\<close> on an array of \<open>length xs\<close> elements.\<close>

definition add_slot :: "nat \<Rightarrow> 'a::plus \<Rightarrow> 'a list \<Rightarrow> (fault + 'a list) option" where
  "add_slot t y xs = (if t < length xs then return (xs[t := xs ! t + y]) else Some (Inl OutOfBounds))"

text \<open>
  \<^verbatim>\<open>accum[t] += f(dx * i + a)\<close> (lines 108, 137) on the buffer the allocation returned:
  \<open>None\<close> is the null pointer.
\<close>

definition accum_add ::
  "(int \<Rightarrow> 'a::{plus,times}) \<Rightarrow> ('a \<Rightarrow> 'a) \<Rightarrow> 'a \<Rightarrow> 'a \<Rightarrow> nat \<Rightarrow> nat \<Rightarrow> int list \<times> 'a list option
     \<Rightarrow> (fault + int list \<times> 'a list option) option" where
  "accum_add cvt f a dx t i = (\<lambda>(tr, accum).
     case accum of
       None \<Rightarrow> Some (Inl NullDeref)
     | Some xs \<Rightarrow>
         and_then (add_slot t (f (dx * cvt (int i) + a)) xs) (\<lambda>xs'.
         return (tr @ [int i], Some xs')))"

text \<open>\<^verbatim>\<open>result += accum[i]\<close> (lines 113, 142).\<close>

definition accum_read :: "'a::plus list option \<Rightarrow> nat \<Rightarrow> 'a \<Rightarrow> (fault + 'a) option" where
  "accum_read accum i result =
     (case accum of
        None \<Rightarrow> Some (Inl NullDeref)
      | Some xs \<Rightarrow> if i < length xs then return (result + xs ! i) else Some (Inl OutOfBounds))"

text \<open>
  Lines 92-119.  \<open>alloc_ok\<close> says whether \<^verbatim>\<open>calloc\<close> returns a buffer (of \<open>T\<close> zeros) or
  the null pointer.  The team is \<open>0, \<dots>, T - 1\<close>; each worker writes its own slot.
\<close>

definition integrateArr ::
  "nat \<Rightarrow> (int \<Rightarrow> 'a::{zero,plus,minus,times,inverse}) \<Rightarrow> 'a \<Rightarrow> 'a \<Rightarrow> ('a \<Rightarrow> 'a) \<Rightarrow> nat \<Rightarrow> bool \<Rightarrow> (fault + 'a run) option" where
  "integrateArr steps cvt a b f T alloc_ok =
     (let dx = (b - a) / cvt (int steps);
          accum = (if alloc_ok then Some (replicate T 0) else None) in
      and_then (run_team (\<lambda>t accum. strided_loop steps T (accum_add cvt f a dx t) t ([], accum))
                  [0..<T] accum) (\<lambda>(trs, accum).
      and_then (counting_loop T (accum_read accum) 0) (\<lambda>result.
      return \<lparr>threads = [], samples = trs, ret = result * dx\<rparr>)))"

text \<open>
  Lines 121-148.  \<open>alloc_ok\<close> says whether \<^verbatim>\<open>aligned_alloc\<close> returns a buffer or the null
  pointer; \<^verbatim>\<open>memset\<close> then writes \<open>T * sizeof(partialSumT)\<close> zero bytes to it.
\<close>

definition integrateArrAlign ::
  "nat \<Rightarrow> (int \<Rightarrow> 'a::{zero,plus,minus,times,inverse}) \<Rightarrow> 'a \<Rightarrow> 'a \<Rightarrow> ('a \<Rightarrow> 'a) \<Rightarrow> nat \<Rightarrow> bool \<Rightarrow> (fault + 'a run) option" where
  "integrateArrAlign steps cvt a b f T alloc_ok =
     (let dx = (b - a) / cvt (int steps) in
      and_then (if alloc_ok then return (Some (replicate T 0))
                else if 0 < T then Some (Inl NullDeref) else return None) (\<lambda>accum.
      and_then (run_team (\<lambda>t accum. strided_loop steps T (accum_add cvt f a dx t) t ([], accum))
                  [0..<T] accum) (\<lambda>(trs, accum).
      and_then (counting_loop T (accum_read accum) 0) (\<lambda>result.
      return \<lparr>threads = [], samples = trs, ret = result * dx\<rparr>))))"

text \<open>
  Lines 150-159.  The runtime hands the iterations \<open>0, \<dots>, STEPS - 1\<close> of the
  \<^verbatim>\<open>parallel for\<close> to the threads of the team: \<open>sched ! t\<close> lists the iterations thread
  \<open>t\<close> runs, in the order in which it runs them.  Each thread adds into a private copy
  of \<open>result\<close> that starts at \<open>0\<close>; the copies are added to \<open>result\<close> in the order
  \<open>order\<close>.  Both are parameters: OpenMP leaves them to the runtime, and promises that
  every iteration is run once.
\<close>

definition reduction_worker ::
  "(int \<Rightarrow> 'a::{zero,plus,times}) \<Rightarrow> 'a \<Rightarrow> 'a \<Rightarrow> ('a \<Rightarrow> 'a) \<Rightarrow> nat list list \<Rightarrow> nat \<Rightarrow> 'a
     \<Rightarrow> (fault + int list \<times> 'a) option" where
  "reduction_worker cvt a dx f sched t result =
     (let R = foldl (\<lambda>R i. R + f (dx * cvt (int i) + a)) 0 (sched ! t) in
      return (map int (sched ! t), result + R))"

definition integrateReduction ::
  "nat \<Rightarrow> (int \<Rightarrow> 'a::{zero,plus,minus,times,inverse}) \<Rightarrow> 'a \<Rightarrow> 'a \<Rightarrow> ('a \<Rightarrow> 'a) \<Rightarrow> nat list list \<Rightarrow> nat list
     \<Rightarrow> (fault + 'a run) option" where
  "integrateReduction steps cvt a b f sched order =
     (let dx = (b - a) / cvt (int steps) in
      and_then (run_team (reduction_worker cvt a dx f sched) order 0) (\<lambda>(trs, result).
      return \<lparr>threads = [], samples = trs, ret = result * dx\<rparr>))"

text \<open>\<^verbatim>\<open>vec[t].val += f(dx * i + a)\<close> (line 170), with \<^verbatim>\<open>int i\<close>.\<close>

definition vec_add ::
  "(int \<Rightarrow> 'a::{plus,times}) \<Rightarrow> ('a \<Rightarrow> 'a) \<Rightarrow> 'a \<Rightarrow> 'a \<Rightarrow> nat \<Rightarrow> int \<Rightarrow> int list \<times> 'a list
     \<Rightarrow> (fault + int list \<times> 'a list) option" where
  "vec_add cvt f a dx t i = (\<lambda>(tr, vec).
     and_then (add_slot t (f (dx * cvt i + a)) vec) (\<lambda>vec'.
     return (tr @ [i], vec')))"

text \<open>
  Lines 161-189.  \<open>vec\<close> has \<open>T\<close> slots, all \<open>0.0\<close>; threads are started for \<open>t\<close> in
  \<open>1, \<dots>, T - 1\<close> and the caller runs \<^verbatim>\<open>threadProc(0)\<close> itself, whatever \<open>T\<close> is.  After the
  join the slots are added up in the order of the vector.
\<close>

definition integratePS ::
  "nat \<Rightarrow> (int \<Rightarrow> 'a::{zero,plus,minus,times,inverse}) \<Rightarrow> 'a \<Rightarrow> 'a \<Rightarrow> ('a \<Rightarrow> 'a) \<Rightarrow> nat \<Rightarrow> (fault + 'a run) option" where
  "integratePS steps cvt a b f T =
     (let dx = (b - a) / cvt (int steps);
          vec = replicate T 0 in
      and_then (run_team (\<lambda>t vec. strided_loop_int steps T (vec_add cvt f a dx t) (int t) ([], vec))
                  (caller_and_threads T) vec) (\<lambda>(trs, vec).
      return \<lparr>threads = [1..<T], samples = trs, ret = foldl (+) 0 vec * dx\<rparr>))"

section \<open>Notions of the specification\<close>

text \<open>
  Adding the values \<open>g i\<close> to \<open>r\<close> in the order of the list, with the program's own
  addition: no law of arithmetic is used.
\<close>

definition add_in_order :: "'a \<Rightarrow> (nat \<Rightarrow> 'a) \<Rightarrow> nat list \<Rightarrow> 'a::plus" where
  "add_in_order r g xs = foldl (\<lambda>R i. R + g i) r xs"

text \<open>
  The left-endpoint Riemann sum of the specification: \<open>N\<close> sample points \<open>a + i * dx\<close>,
  \<open>dx = (b - a) / N\<close>, the sum of the values multiplied by \<open>dx\<close>.
\<close>

definition riemann_sum :: "nat \<Rightarrow> real \<Rightarrow> real \<Rightarrow> (real \<Rightarrow> real) \<Rightarrow> real" where
  "riemann_sum n a b f = (\<Sum>i<n. f (a + real i * ((b - a) / real n))) * ((b - a) / real n)"

text \<open>
  An order in which the team \<open>0, \<dots>, T - 1\<close> reaches the shared accumulator: every worker
  once.
\<close>

definition team_order :: "nat \<Rightarrow> nat list \<Rightarrow> bool" where
  "team_order T order \<longleftrightarrow> mset order = mset [0..<T]"

text \<open>
  What OpenMP promises of a worksharing loop over \<open>0, \<dots>, steps - 1\<close> run by a team of
  \<open>T\<close> threads: every iteration is handed to one thread, once, and every thread's
  private copy is combined once.
\<close>

definition worksharing :: "nat \<Rightarrow> nat \<Rightarrow> nat list list \<Rightarrow> nat list \<Rightarrow> bool" where
  "worksharing steps T sched order \<longleftrightarrow>
     length sched = T \<and> mset order = mset [0..<T] \<and> mset (concat sched) = mset [0..<steps]"

text \<open>
  A call returns, has called the integrand at every index \<open>0, \<dots>, n - 1\<close> once and at
  no other index, and returns the Riemann sum.
\<close>

definition evaluates_riemann ::
  "nat \<Rightarrow> real \<Rightarrow> real \<Rightarrow> (real \<Rightarrow> real) \<Rightarrow> (fault + real run) option \<Rightarrow> bool" where
  "evaluates_riemann n a b f m \<longleftrightarrow>
     (\<exists>r. m = Some (Inr r)
        \<and> mset (concat (samples r)) = mset (map int [0..<n])
        \<and> (\<forall>i \<in> set (concat (samples r)). 0 \<le> i \<and> i < int n)
        \<and> ret r = riemann_sum n a b f)"

definition returns :: "(fault + 'a run) option \<Rightarrow> 'a \<Rightarrow> bool" where
  "returns m v \<longleftrightarrow> (\<exists>r. m = Some (Inr r) \<and> ret r = v)"

section \<open>The benchmark driver\<close>

text \<open>
  \<^verbatim>\<open>struct ExperimentResult { double result; double time; };\<close> (lines 21-24).  The driver
  works on the times, which are read in exact arithmetic here.
\<close>

record ExperimentResult =
  result :: real
  time :: real

text \<open>
  The state the driver works on: the number of threads configured for the next call,
  and how often the clock \<^verbatim>\<open>omp_get_wtime\<close> has been read.
\<close>

record bench_state =
  num_threads :: nat
  ticks :: nat

text \<open>
  Modelled from the spec: \<^verbatim>\<open>set_num_threads\<close> is defined in \<^verbatim>\<open>reduction.cpp\<close>, which is not
  among the sources.  The specification describes it as the control that sets the active
  parallelism to \<open>T\<close> for the next call of an integrator.
\<close>

definition set_num_threads :: "nat \<Rightarrow> bench_state \<Rightarrow> bench_state" where
  "set_num_threads T st = st\<lparr>num_threads := T\<rparr>"

text \<open>
  Lines 219-227.  \<open>clock k\<close> is what the \<open>k\<close>-th reading of \<^verbatim>\<open>omp_get_wtime\<close> returns, and
  \<open>I T\<close> is the value the integrator \<open>I\<close> returns when \<open>T\<close> threads are configured.
\<close>

definition runExperiment ::
  "(nat \<Rightarrow> real) \<Rightarrow> (nat \<Rightarrow> real) \<Rightarrow> bench_state \<Rightarrow> ExperimentResult \<times> bench_state" where
  "runExperiment clock I st =
     (let t0 = clock (ticks st);
          r = I (num_threads st);
          t1 = clock (ticks st + 1)
      in (\<lparr>result = r, time = t1 - t0\<rparr>, st\<lparr>ticks := ticks st + 2\<rparr>))"

text \<open>
  The quotient \<^verbatim>\<open>T1 / time\<close> of two \<^verbatim>\<open>double\<close>s is a number when the divisor is not zero;
  \<open>None\<close> stands for the infinity or the NaN a zero divisor gives.
\<close>

definition fdiv :: "real \<Rightarrow> real \<Rightarrow> real option" where
  "fdiv x y = (if y = 0 then None else Some (x / y))"

text \<open>A line of the table: the columns \<^verbatim>\<open>Result\<close>, \<^verbatim>\<open>Time\<close> and \<^verbatim>\<open>Acceleration\<close>.\<close>

record table_row =
  col_result :: real
  col_time :: real
  col_acceleration :: "real option"

text \<open>The body of the loop of lines 239-244.\<close>

definition sweep_step ::
  "(nat \<Rightarrow> real) \<Rightarrow> (nat \<Rightarrow> real) \<Rightarrow> real \<Rightarrow> table_row list \<times> bench_state \<Rightarrow> nat
     \<Rightarrow> table_row list \<times> bench_state" where
  "sweep_step clock I T1 = (\<lambda>(rows, st) T.
     let (r, st') = runExperiment clock I (set_num_threads T st)
     in (rows @ [\<lparr>col_result = result r, col_time = time r, col_acceleration = fdiv T1 (time r)\<rparr>],
         st'))"

text \<open>
  Lines 229-247; \<open>P\<close> is what \<^verbatim>\<open>omp_get_num_procs()\<close> returns.  The lines printed are
  returned as a list.
\<close>

definition showExperimentResults ::
  "(nat \<Rightarrow> real) \<Rightarrow> (nat \<Rightarrow> real) \<Rightarrow> nat \<Rightarrow> bench_state \<Rightarrow> table_row list \<times> bench_state" where
  "showExperimentResults clock I P st =
     (let (R, st1) = runExperiment clock I (set_num_threads 1 st);
          T1 = time R;
          rows = [\<lparr>col_result = result R, col_time = time R, col_acceleration = fdiv T1 (time R)\<rparr>]
      in foldl (sweep_step clock I T1) (rows, st1) [2..<Suc P])"

section \<open>The random array\<close>

text \<open>
  \<^verbatim>\<open>#define MIN 1\<close>, \<^verbatim>\<open>#define MAX 300\<close>, \<^verbatim>\<open>#define SEED 100\<close> (lines 13-15), and the
  multiplier \<^verbatim>\<open>a\<close> and the increment \<^verbatim>\<open>b\<close> of lines 336-337 and 372-373.  \<^verbatim>\<open>uint64_t\<close> is
  \<open>64 word\<close>, whose arithmetic wraps around; \<^verbatim>\<open>MIN\<close> and \<^verbatim>\<open>MAX\<close> carry a suffix because
  Isabelle reads \<open>MIN\<close> and \<open>MAX\<close> as binders.
\<close>

type_synonym u64 = "64 word"

definition MIN_val :: u64 where
  "MIN_val = 1"

definition MAX_val :: u64 where
  "MAX_val = 300"

definition SEED :: u64 where
  "SEED = 100"

definition lcg_a :: u64 where
  "lcg_a = 6364136223846793005"

definition lcg_b :: u64 where
  "lcg_b = 1"

text \<open>Reading and writing \<^verbatim>\<open>xs[i]\<close> in an array of \<open>length xs\<close> elements.\<close>

definition array_read :: "'a list \<Rightarrow> nat \<Rightarrow> (fault + 'a) option" where
  "array_read xs i = (if i < length xs then return (xs ! i) else Some (Inl OutOfBounds))"

definition array_write :: "'a list \<Rightarrow> nat \<Rightarrow> 'a \<Rightarrow> (fault + 'a list) option" where
  "array_write xs i v = (if i < length xs then return (xs[i := v]) else Some (Inl OutOfBounds))"

text \<open>
  What the two generators return: the array \<open>V\<close> as they leave it, and the mean
  \<^verbatim>\<open>(double)sum / (double)n\<close>.
\<close>

record randomized =
  arr :: "32 word list"
  mean :: "real option"

text \<open>\<^verbatim>\<open>V[i] = (cur % (MAX - MIN + 1)) + MIN\<close> (lines 343, 402): the value stored.\<close>

definition in_range :: "u64 \<Rightarrow> 32 word" where
  "in_range cur = ucast (cur mod (MAX_val - MIN_val + 1) + MIN_val)"

text \<open>Lines 335-349.  \<open>V\<close> is the caller's array, \<open>n\<close> the length passed.\<close>

definition randomize_arr_single :: "32 word list \<Rightarrow> nat \<Rightarrow> (fault + randomized) option" where
  "randomize_arr_single V n =
     and_then (counting_loop n (\<lambda>i (V, prev, sum64).
                 let cur = lcg_a * prev + lcg_b in
                 and_then (array_write V i (in_range cur)) (\<lambda>V'.
                 and_then (array_read V' i) (\<lambda>v.
                 return (V', cur, sum64 + (ucast v :: u64)))))
               (V, SEED, 0 :: u64)) (\<lambda>(V', prev, sum64).
     return \<lparr>arr = V', mean = fdiv (real (unat sum64)) (real n)\<rparr>)"

text \<open>Lines 352-356.\<close>

definition getA :: "nat \<Rightarrow> u64 \<Rightarrow> (fault + u64) option" where
  "getA sz a = for_loop (\<lambda>i. i \<le> sz) (\<lambda>i. u32 (i + 1)) (\<lambda>i res. return (res * a)) 1 1"

text \<open>
  Lines 358-369.  \<^verbatim>\<open>new uint64_t(size)\<close> allocates one \<^verbatim>\<open>uint64_t\<close> and initialises it with
  the value \<open>size\<close>: the array \<open>acc\<close> has one element.
\<close>

definition getB :: "nat \<Rightarrow> u64 \<Rightarrow> (fault + u64) option" where
  "getB sz a =
     (let acc = [of_nat sz :: u64] in
      and_then (array_write acc 0 1) (\<lambda>acc.
      and_then (for_loop (\<lambda>i. i \<le> sz) (\<lambda>i. u32 (i + 1)) (\<lambda>i (acc, res).
                  and_then (counting_loop i (\<lambda>j acc.
                              and_then (array_read acc j) (\<lambda>x.
                              array_write acc i (x * a))) acc) (\<lambda>acc.
                  and_then (array_read acc i) (\<lambda>x.
                  return (acc, res + x))))
                1 (acc, 1)) (\<lambda>(acc, res).
      return res)))"

text \<open>Running the workers of a team one after the other on the state they share.\<close>

primrec run_workers :: "(nat \<Rightarrow> 's \<Rightarrow> (fault + 's) option) \<Rightarrow> nat list \<Rightarrow> 's \<Rightarrow> (fault + 's) option" where
  "run_workers w [] s = return s"
| "run_workers w (t # ts) s = and_then (w t s) (run_workers w ts)"

text \<open>
  A worker of \<^verbatim>\<open>randomize_arr_fs\<close> (lines 392-404): it writes the elements of \<open>V\<close> at
  its own indices \<open>t, t + T, \<dots>\<close>.
\<close>

definition fs_worker :: "nat \<Rightarrow> nat \<Rightarrow> u64 \<Rightarrow> u64 \<Rightarrow> nat \<Rightarrow> 32 word list \<Rightarrow> (fault + 32 word list) option" where
  "fs_worker n T LUTA LUTB t V =
     and_then (for_loop (\<lambda>i. i < n) (\<lambda>i. u32 (i + T)) (\<lambda>i (V, prev).
                 and_then (if i = t
                           then and_then (getA (u32 (i + 1)) lcg_a) (\<lambda>A.
                                and_then (getB i lcg_a) (\<lambda>B.
                                return (A * prev + B * lcg_b)))
                           else return (LUTA * prev + LUTB)) (\<lambda>cur.
                 and_then (array_write V i (in_range cur)) (\<lambda>V'.
                 return (V', cur))))
               t (V, SEED)) (\<lambda>(V', prev). return V')"

text \<open>Lines 407-408.\<close>

definition sum_array :: "32 word list \<Rightarrow> nat \<Rightarrow> (fault + u64) option" where
  "sum_array V n =
     counting_loop n (\<lambda>i sum64.
       and_then (array_read V i) (\<lambda>v. return (sum64 + (ucast v :: u64)))) (0 :: u64)"

text \<open>
  Lines 371-411, with the team \<open>0, \<dots>, T - 1\<close>, where \<open>T\<close> is what \<^verbatim>\<open>get_num_threads()\<close>
  returns.  \<open>T - 1\<close> is computed on \<^verbatim>\<open>unsigned\<close>.
\<close>

definition randomize_arr_fs :: "32 word list \<Rightarrow> nat \<Rightarrow> nat \<Rightarrow> (fault + randomized) option" where
  "randomize_arr_fs V n T =
     and_then (getA T lcg_a) (\<lambda>LUTA.
     and_then (getB (u32 (T + (2 ^ 32 - 1))) lcg_a) (\<lambda>B.
     let LUTB = B * lcg_b in
     and_then (run_workers (fs_worker n T LUTA LUTB) [0..<T] V) (\<lambda>V'.
     and_then (sum_array V' n) (\<lambda>sum64.
     return \<lparr>arr = V', mean = fdiv (real (unat sum64)) (real n)\<rparr>))))"

text \<open>The linear congruential sequence \<open>x\<^sub>0 = SEED\<close>, \<open>x\<^sub>i\<^sub>+\<^sub>1 = a x\<^sub>i + b\<close> modulo \<open>2\<^sup>6\<^sup>4\<close>.\<close>

primrec lcg :: "nat \<Rightarrow> u64" where
  "lcg 0 = SEED"
| "lcg (Suc i) = lcg_a * lcg i + lcg_b"

text \<open>The array after the first \<open>k\<close> elements have been written, and their sum.\<close>

definition filled :: "32 word list \<Rightarrow> nat \<Rightarrow> 32 word list" where
  "filled V k = foldl (\<lambda>V i. V[i := in_range (lcg (Suc i))]) V [0..<k]"

definition total :: "nat \<Rightarrow> u64" where
  "total k = foldl (\<lambda>s i. s + ucast (in_range (lcg (Suc i)))) 0 [0..<k]"

section \<open>Rounding\<close>

text \<open>
  \<^verbatim>\<open>double\<close> is the binary64 format of IEEE 754, and the program runs in the default
  rounding mode, round to nearest.  The integrators above are written over an arbitrary
  type \<open>'a\<close> of doubles.  What the theorems on rounding assume of \<open>'a\<close> is the standard model
  of binary64 arithmetic: \<open>fin x\<close> says that \<open>x\<close> is a finite double (neither an infinity
  nor a NaN), \<open>val x\<close> is the real number a finite \<open>x\<close> stands for, and every operation on
  finite doubles whose exact result does not overflow returns the exact result rounded.

  The unit roundoff \<open>2\<^sup>-\<^sup>5\<^sup>3\<close>: rounding a real number in the normal range changes it by
  at most this fraction of itself.
\<close>

definition unit_roundoff :: real where
  "unit_roundoff = 1 / 2 ^ 53"

text \<open>
  Half the distance \<open>2\<^sup>-\<^sup>1\<^sup>0\<^sup>7\<^sup>4\<close> between the subnormal doubles: rounding a real number in the
  subnormal range changes it by at most this much.
\<close>

definition half_min_subnormal :: real where
  "half_min_subnormal = 1 / 2 ^ 1075"

text \<open>
  A real number of magnitude at most \<open>2\<^sup>1\<^sup>0\<^sup>2\<^sup>3\<close> rounds to a finite double (the largest
  finite double is just below \<open>2\<^sup>1\<^sup>0\<^sup>2\<^sup>4\<close>).
\<close>

definition overflow_bound :: real where
  "overflow_bound = 2 ^ 1023"

text \<open>
  The model.  \<open>0.0\<close> is finite and stands for \<open>0\<close>.  The conversion \<open>cvt\<close> of an \<^verbatim>\<open>int\<close> or
  \<^verbatim>\<open>unsigned\<close> to \<^verbatim>\<open>double\<close> is exact up to \<open>2\<^sup>5\<^sup>3\<close>.  A sum or difference of finite doubles
  that does not overflow is finite and carries a relative error of at most the unit
  roundoff (sums and differences in the subnormal range are exact).  A product or
  quotient that does not overflow is finite and carries that relative error or, in the
  subnormal range, an absolute error of at most half the subnormal spacing.  The product
  does not depend on the order of its factors.
\<close>

definition binary64 :: "('a::{zero,plus,minus,times,inverse} \<Rightarrow> real) \<Rightarrow> ('a \<Rightarrow> bool) \<Rightarrow> (int \<Rightarrow> 'a) \<Rightarrow> bool" where
  "binary64 val fin cvt \<longleftrightarrow>
     fin 0 \<and> val 0 = 0
   \<and> (\<forall>i. \<bar>i\<bar> \<le> 2 ^ 53 \<longrightarrow> fin (cvt i) \<and> val (cvt i) = real_of_int i)
   \<and> (\<forall>x y. fin x \<and> fin y \<and> \<bar>val x + val y\<bar> \<le> overflow_bound
          \<longrightarrow> fin (x + y) \<and> \<bar>val (x + y) - (val x + val y)\<bar> \<le> unit_roundoff * \<bar>val x + val y\<bar>)
   \<and> (\<forall>x y. fin x \<and> fin y \<and> \<bar>val x - val y\<bar> \<le> overflow_bound
          \<longrightarrow> fin (x - y) \<and> \<bar>val (x - y) - (val x - val y)\<bar> \<le> unit_roundoff * \<bar>val x - val y\<bar>)
   \<and> (\<forall>x y. fin x \<and> fin y \<and> \<bar>val x * val y\<bar> \<le> overflow_bound
          \<longrightarrow> fin (x * y)
            \<and> \<bar>val (x * y) - val x * val y\<bar> \<le> unit_roundoff * \<bar>val x * val y\<bar> + half_min_subnormal)
   \<and> (\<forall>x y. fin x \<and> fin y \<and> val y \<noteq> 0 \<and> \<bar>val x / val y\<bar> \<le> overflow_bound
          \<longrightarrow> fin (x / y)
            \<and> \<bar>val (x / y) - val x / val y\<bar> \<le> unit_roundoff * \<bar>val x / val y\<bar> + half_min_subnormal)
   \<and> (\<forall>x y :: 'a. x * y = y * x)"

text \<open>
  \<^verbatim>\<open>double dx = (b - a) / STEPS\<close> and the argument \<^verbatim>\<open>dx * i + a\<close> of the \<open>i\<close>-th call of the
  integrand, as the program computes them: both are doubles.
\<close>

definition step_width :: "nat \<Rightarrow> (int \<Rightarrow> 'a::{minus,inverse}) \<Rightarrow> 'a \<Rightarrow> 'a \<Rightarrow> 'a" where
  "step_width steps cvt a b = (b - a) / cvt (int steps)"

definition sample_point :: "nat \<Rightarrow> (int \<Rightarrow> 'a::{plus,minus,times,inverse}) \<Rightarrow> 'a \<Rightarrow> 'a \<Rightarrow> nat \<Rightarrow> 'a" where
  "sample_point steps cvt a b i = step_width steps cvt a b * cvt (int i) + a"

text \<open>
  The call \<open>m\<close> returns, what it returns is a finite double, and the real number it stands
  for is within \<open>tol\<close> of \<open>c\<close>.
\<close>

definition close_to ::
  "('a \<Rightarrow> real) \<Rightarrow> ('a \<Rightarrow> bool) \<Rightarrow> (fault + 'a run) option \<Rightarrow> real \<Rightarrow> real \<Rightarrow> bool" where
  "close_to val fin m c tol \<longleftrightarrow> (\<exists>r. m = Some (Inr r) \<and> fin (ret r) \<and> \<bar>val (ret r) - c\<bar> \<le> tol)"

text \<open>
  The same of each of the seven strategies, run with \<open>T\<close> workers that reach the shared
  accumulator in the order \<open>order\<close>, the iterations of the \<^verbatim>\<open>parallel for\<close> distributed
  as \<open>sched\<close> and its private copies combined in the order \<open>rorder\<close>.
\<close>

definition strategies_close_to ::
  "('a::{zero,plus,minus,times,inverse} \<Rightarrow> real) \<Rightarrow> ('a \<Rightarrow> bool) \<Rightarrow> nat \<Rightarrow> (int \<Rightarrow> 'a) \<Rightarrow> 'a \<Rightarrow> 'a \<Rightarrow> ('a \<Rightarrow> 'a)
     \<Rightarrow> nat \<Rightarrow> nat list \<Rightarrow> nat list list \<Rightarrow> nat list \<Rightarrow> real \<Rightarrow> real \<Rightarrow> bool" where
  "strategies_close_to val fin steps cvt a b f T order sched rorder c tol \<longleftrightarrow>
     close_to val fin (integrateCrit steps cvt a b f T order) c tol
   \<and> close_to val fin (integrateMutex steps cvt a b f T order) c tol
   \<and> close_to val fin (integrateArr steps cvt a b f T True) c tol
   \<and> close_to val fin (integrateArrAlign steps cvt a b f T True) c tol
   \<and> close_to val fin (integrateReduction steps cvt a b f sched rorder) c tol
   \<and> close_to val fin (integratePS steps cvt a b f T) c tol
   \<and> close_to val fin (integrateAtomic steps cvt a b f T order) c tol"

text \<open>
  What the program would return if the additions and the final multiplication were
  exact: the sum of the values of the integrand, as the program computes them at its
  sample points, multiplied by the step width as the program computes it.
\<close>

definition unrounded_sum ::
  "('a::{plus,minus,times,inverse} \<Rightarrow> real) \<Rightarrow> nat \<Rightarrow> (int \<Rightarrow> 'a) \<Rightarrow> 'a \<Rightarrow> 'a \<Rightarrow> ('a \<Rightarrow> 'a) \<Rightarrow> real" where
  "unrounded_sum val steps cvt a b f
     = (\<Sum>i < steps. val (f (sample_point steps cvt a b i))) * val (step_width steps cvt a b)"

text \<open>
  The same with the magnitudes of the addends and of the step width: the scale against
  which the rounding errors of a floating-point sum are measured.  For an integrand
  that does not change sign it is the magnitude of the unrounded sum itself.
\<close>

definition magnitude ::
  "('a::{plus,minus,times,inverse} \<Rightarrow> real) \<Rightarrow> nat \<Rightarrow> (int \<Rightarrow> 'a) \<Rightarrow> 'a \<Rightarrow> 'a \<Rightarrow> ('a \<Rightarrow> 'a) \<Rightarrow> real" where
  "magnitude val steps cvt a b f
     = (\<Sum>i < steps. \<bar>val (f (sample_point steps cvt a b i))\<bar>) * \<bar>val (step_width steps cvt a b)\<bar>"


section \<open>Facts about the loops\<close>

subsection \<open>The arithmetic progression\<close>

lemma stride_list_Nil: "\<not> (0 < T \<and> i < n) \<Longrightarrow> stride_list n T i = []"
  by (subst stride_list.simps) simp

lemma stride_list_Cons: "0 < T \<Longrightarrow> i < n \<Longrightarrow> stride_list n T i = i # stride_list n T (i + T)"
  by (subst stride_list.simps) simp

lemma mod_eq_step:
  fixes i j T :: nat
  assumes "i < j" "j mod T = i mod T"
  shows "i + T \<le> j"
proof -
  have "T dvd j - i"
    using assms by (metis mod_eq_dvd_iff_nat less_imp_le_nat)
  moreover have "0 < j - i" using assms by simp
  ultimately have "T \<le> j - i" by (rule dvd_imp_le)
  then show ?thesis using assms by simp
qed

lemma set_stride_list:
  "0 < T \<Longrightarrow> set (stride_list n T i) = {j. i \<le> j \<and> j < n \<and> j mod T = i mod T}"
proof (induction n T i rule: stride_list.induct)
  case (1 n T i)
  show ?case
  proof (cases "i < n")
    case False
    then show ?thesis by (auto simp: stride_list_Nil)
  next
    case True
    have IH: "set (stride_list n T (i + T)) = {j. i + T \<le> j \<and> j < n \<and> j mod T = i mod T}"
      using "1.IH" "1.prems" True by simp
    have "{j. i \<le> j \<and> j < n \<and> j mod T = i mod T}
          = insert i {j. i + T \<le> j \<and> j < n \<and> j mod T = i mod T}" (is "?L = ?R")
    proof
      show "?L \<subseteq> ?R"
      proof
        fix j assume "j \<in> ?L"
        then have j: "i \<le> j" "j < n" "j mod T = i mod T" by auto
        show "j \<in> ?R"
        proof (cases "j = i")
          case True then show ?thesis by simp
        next
          case False
          with j have "i < j" by simp
          then have "i + T \<le> j" using j(3) by (rule mod_eq_step)
          with j show ?thesis by simp
        qed
      qed
      show "?R \<subseteq> ?L" using True by auto
    qed
    then show ?thesis
      using IH "1.prems" True by (simp add: stride_list_Cons)
  qed
qed

lemma set_stride_list_worker:
  assumes "t < T"
  shows "set (stride_list n T t) = {j. j < n \<and> j mod T = t}"
proof -
  have "0 < T" using assms by simp
  then have "set (stride_list n T t) = {j. t \<le> j \<and> j < n \<and> j mod T = t mod T}"
    by (rule set_stride_list)
  also have "\<dots> = {j. j < n \<and> j mod T = t}"
    using assms by (auto simp: mod_less_eq_dividend dest: sym)
  finally show ?thesis .
qed

lemma distinct_stride_list: "distinct (stride_list n T i)"
proof (induction n T i rule: stride_list.induct)
  case (1 n T i)
  show ?case
  proof (cases "0 < T \<and> i < n")
    case False
    then show ?thesis by (simp add: stride_list_Nil)
  next
    case True
    then have "i \<notin> set (stride_list n T (i + T))"
      by (simp add: set_stride_list)
    then show ?thesis
      using True "1.IH" by (simp add: stride_list_Cons)
  qed
qed

lemma length_stride_list:
  "0 < T \<Longrightarrow> length (stride_list n T i) = (n - i + T - 1) div T"
proof (induction n T i rule: stride_list.induct)
  case (1 n T i)
  show ?case
  proof (cases "i < n")
    case False
    then show ?thesis using "1.prems" by (simp add: stride_list_Nil)
  next
    case True
    have IH: "length (stride_list n T (i + T)) = (n - (i + T) + T - 1) div T"
      using "1.IH" "1.prems" True by simp
    show ?thesis
    proof (cases "i + T \<le> n")
      case le: True
      define m where "m = n - (i + T) + T - 1"
      have e: "n - i + T - 1 = m + T"
        unfolding m_def using le True "1.prems" by simp
      have "(m + T) div T = m div T + 1"
        using "1.prems" by simp
      then have "(n - i + T - 1) div T = m div T + 1"
        using e by simp
      then show ?thesis
        using IH "1.prems" True unfolding m_def by (simp add: stride_list_Cons)
    next
      case gt: False
      then have a: "n - (i + T) + T - 1 = T - 1" by simp
      define k where "k = n - i + T - 1"
      have "T * 1 \<le> k" "k < T * Suc 1"
        unfolding k_def using gt True by simp_all
      then have "k div T = 1"
        by (rule div_nat_eqI)
      then have "(n - i + T - 1) div T = 1"
        unfolding k_def .
      then show ?thesis
        using IH a "1.prems" True by (simp add: stride_list_Cons)
    qed
  qed
qed

subsection \<open>Sequencing\<close>

lemma and_then_return [simp]: "and_then (return x) k = k x"
  by (simp add: and_then_def return_def)

lemma and_then_Some_Inr [simp]: "and_then (Some (Inr x)) k = k x"
  by (simp add: and_then_def)

lemma and_then_fault [simp]: "and_then (Some (Inl e)) k = Some (Inl e)"
  by (simp add: and_then_def)

lemma and_then_None [simp]: "and_then None k = None"
  by (simp add: and_then_def)

subsection \<open>Unrolling the loops\<close>

lemma u32_id: "x < 2 ^ 32 \<Longrightarrow> u32 x = x"
  by (simp add: u32_def)

lemma to_int32_id: "0 \<le> x \<Longrightarrow> x < 2 ^ 31 \<Longrightarrow> to_int32 x = x"
  by (simp add: to_int32_def Let_def)

lemma for_loop_exit: "\<not> cond i \<Longrightarrow> for_loop cond next body i s = return s"
  by (subst for_loop.simps) (simp add: return_def)

lemma for_loop_step:
  "cond i \<Longrightarrow> body i s = return s' \<Longrightarrow>
   for_loop cond next body i s = for_loop cond next body (next i) s'"
  by (subst for_loop.simps) (simp add: return_def)

lemma for_loop_fault:
  "cond i \<Longrightarrow> body i s = Some (Inl e) \<Longrightarrow> for_loop cond next body i s = Some (Inl e)"
  by (subst for_loop.simps) simp

lemma for_loop_diverges:
  assumes inv: "\<And>i s. I i \<Longrightarrow> cond i \<and> (\<exists>s'. body i s = return s') \<and> I (next i)"
    and "I i"
  shows "for_loop cond next body i s = None"
proof (rule ccontr)
  assume "for_loop cond next body i s \<noteq> None"
  then obtain y where y: "for_loop cond next body i s = Some y" by auto
  let ?P = "\<lambda>c n b j (s0::'b) (y0::fault + 'b). \<not> (c = cond \<and> n = next \<and> b = body \<and> I j)"
  have step: "?P c n b j s0 y0"
    if IH: "\<And>c n b j s0 y0. fl c n b j s0 = Some y0 \<Longrightarrow> ?P c n b j s0 y0"
      and eq: "(if c j
                then (case b j s0 of
                        None \<Rightarrow> None
                      | Some r \<Rightarrow>
                          (case r of Inl e \<Rightarrow> Some (Inl e) | Inr s' \<Rightarrow> fl c n b (n j) s'))
                else Some (Inr s0)) = Some y0"
    for fl c n b j s0 y0
  proof
    assume a: "c = cond \<and> n = next \<and> b = body \<and> I j"
    then obtain s' where s': "cond j" "body j s0 = return s'" "I (next j)"
      using inv[of j s0] by auto
    then have "fl c n b (n j) s' = Some y0"
      using eq a by (simp add: return_def)
    then have "?P c n b (n j) s' y0"
      by (rule IH)
    then show False using a s' by simp
  qed
  have "?P cond next body i s y"
    using step y by (rule for_loop.raw_induct[where P = ?P])
  then show False using assms(2) by simp
qed

lemma strided_loop_unroll:
  assumes "0 < T" and "steps + T \<le> 2 ^ 32"
    and "\<And>j s. j < steps \<Longrightarrow> P s \<Longrightarrow> body j s = return (g j s) \<and> P (g j s)"
    and "P s"
  shows "strided_loop steps T body i s = return (foldl (\<lambda>s j. g j s) s (stride_list steps T i))
         \<and> P (foldl (\<lambda>s j. g j s) s (stride_list steps T i))"
  using assms
proof (induction steps T i arbitrary: s rule: stride_list.induct)
  case (1 n T i)
  show ?case
  proof (cases "i < n")
    case False
    then show ?thesis
      using "1.prems" by (simp add: strided_loop_def for_loop_exit stride_list_Nil)
  next
    case True
    have b: "body i s = return (g i s)" and P': "P (g i s)"
      using "1.prems"(3)[OF True "1.prems"(4)] by simp_all
    have "i + T < 2 ^ 32" using True "1.prems"(2) by simp
    then have "strided_loop n T body i s = strided_loop n T body (i + T) (g i s)"
      using for_loop_step[of "\<lambda>i. i < n" i body s "g i s" "\<lambda>i. u32 (i + T)"] True b
      by (simp add: strided_loop_def u32_id)
    moreover have "strided_loop n T body (i + T) (g i s)
        = return (foldl (\<lambda>s j. g j s) (g i s) (stride_list n T (i + T)))
        \<and> P (foldl (\<lambda>s j. g j s) (g i s) (stride_list n T (i + T)))"
      using "1.IH"[of "g i s"] "1.prems" True P' by blast
    ultimately show ?thesis
      using "1.prems"(1) True by (simp add: stride_list_Cons)
  qed
qed

lemma strided_loop_int_unroll:
  assumes "0 < T" and "steps + T \<le> 2 ^ 31"
    and "\<And>j s. j < steps \<Longrightarrow> P s \<Longrightarrow> body (int j) s = return (g j s) \<and> P (g j s)"
    and "P s"
  shows "strided_loop_int steps T body (int i) s
           = return (foldl (\<lambda>s j. g j s) s (stride_list steps T i))
         \<and> P (foldl (\<lambda>s j. g j s) s (stride_list steps T i))"
  using assms
proof (induction steps T i arbitrary: s rule: stride_list.induct)
  case (1 n T i)
  show ?case
  proof (cases "i < n")
    case False
    then show ?thesis
      using "1.prems" by (simp add: strided_loop_int_def for_loop_exit stride_list_Nil)
  next
    case True
    have b: "body (int i) s = return (g i s)" and P': "P (g i s)"
      using "1.prems"(3)[OF True "1.prems"(4)] by simp_all
    have "int i + int T < 2 ^ 31"
    proof -
      have "i + T < 2 ^ 31" using True "1.prems"(2) by simp
      then have "int (i + T) < int (2 ^ 31)" by (simp only: of_nat_less_iff)
      then show ?thesis by simp
    qed
    then have nxt: "to_int32 (int i + int T) = int (i + T)"
      by (simp add: to_int32_id)
    have "strided_loop_int n T body (int i) s = strided_loop_int n T body (int (i + T)) (g i s)"
      using for_loop_step[of "\<lambda>i. i < int n" "int i" body s "g i s" "\<lambda>i. to_int32 (i + int T)"]
        True b nxt
      by (simp add: strided_loop_int_def)
    moreover have "strided_loop_int n T body (int (i + T)) (g i s)
        = return (foldl (\<lambda>s j. g j s) (g i s) (stride_list n T (i + T)))
        \<and> P (foldl (\<lambda>s j. g j s) (g i s) (stride_list n T (i + T)))"
      using "1.IH"[of "g i s"] "1.prems" True P' by blast
    ultimately show ?thesis
      using "1.prems"(1) True by (simp add: stride_list_Cons)
  qed
qed

lemma stride_list_one: "stride_list n (Suc 0) i = [i..<n]"
proof (induction n "Suc 0" i rule: stride_list.induct)
  case (1 n i)
  show ?case
  proof (cases "i < n")
    case True
    then show ?thesis using "1.hyps" by (simp add: stride_list_Cons upt_conv_Cons)
  next
    case False
    then show ?thesis by (simp add: stride_list_Nil)
  qed
qed

lemma counting_loop_unroll:
  assumes "n < 2 ^ 32"
    and "\<And>j s. j < n \<Longrightarrow> P s \<Longrightarrow> body j s = return (g j s) \<and> P (g j s)"
    and "P s"
  shows "counting_loop n body s = return (foldl (\<lambda>s j. g j s) s [0..<n])
         \<and> P (foldl (\<lambda>s j. g j s) s [0..<n])"
proof -
  have "counting_loop n body s = strided_loop n 1 body 0 s"
    by (simp add: counting_loop_def strided_loop_def)
  moreover have "strided_loop n 1 body 0 s = return (foldl (\<lambda>s j. g j s) s (stride_list n 1 0))
         \<and> P (foldl (\<lambda>s j. g j s) s (stride_list n 1 0))"
    by (rule strided_loop_unroll) (use assms in simp_all)
  ultimately show ?thesis by (simp add: stride_list_one)
qed

lemma run_team_unroll:
  assumes "\<And>t s. t \<in> set ts \<Longrightarrow> P s \<Longrightarrow> w t s = return (lg t, h t s) \<and> P (h t s)"
    and "P s"
  shows "run_team w ts s = return (map lg ts, foldl (\<lambda>s t. h t s) s ts)
         \<and> P (foldl (\<lambda>s t. h t s) s ts)"
  using assms
proof (induction ts arbitrary: s)
  case Nil
  then show ?case by simp
next
  case (Cons t ts)
  have w: "w t s = return (lg t, h t s)" and P': "P (h t s)"
    using Cons.prems(1)[of t s] Cons.prems(2) by simp_all
  have "run_team w ts (h t s) = return (map lg ts, foldl (\<lambda>s t. h t s) (h t s) ts)
         \<and> P (foldl (\<lambda>s t. h t s) (h t s) ts)"
    using Cons.IH[of "h t s"] Cons.prems(1) P' by simp
  then show ?case using w by simp
qed

subsection \<open>What the workers compute\<close>

lemma add_in_order_Nil [simp]: "add_in_order r g [] = r"
  by (simp add: add_in_order_def)

lemma add_in_order_Cons [simp]: "add_in_order r g (x # xs) = add_in_order (r + g x) g xs"
  by (simp add: add_in_order_def)

lemma add_in_order_snoc [simp]: "add_in_order r g (xs @ [x]) = add_in_order r g xs + g x"
  by (simp add: add_in_order_def)

lemma foldl_trace_sum:
  "foldl (\<lambda>s j. case s of (tr, R) \<Rightarrow> (tr @ [k j], R + g j)) (tr0, r) xs
     = (tr0 @ map k xs, add_in_order r g xs)"
  by (induction xs arbitrary: tr0 r) simp_all

lemma private_loop:
  fixes cvt :: "int \<Rightarrow> 'a::{zero,plus,times}"
  assumes "0 < T" and "steps + T \<le> 2 ^ 32"
  shows "strided_loop steps T (accumulate cvt f a dx) t ([], 0)
         = return (map int (stride_list steps T t),
                   add_in_order 0 (\<lambda>i. f (cvt (int i) * dx + a)) (stride_list steps T t))"
proof -
  let ?g = "\<lambda>j s. case s of (tr, R) \<Rightarrow> (tr @ [int j], R + f (cvt (int j) * dx + a))"
  have "strided_loop steps T (accumulate cvt f a dx) t ([], 0)
          = return (foldl (\<lambda>s j. ?g j s) ([], 0) (stride_list steps T t)) \<and> True"
    by (rule strided_loop_unroll[where P = "\<lambda>_. True"])
       (use assms in \<open>simp_all add: accumulate_def split: prod.split\<close>)
  then show ?thesis by (simp add: foldl_trace_sum)
qed

lemma private_worker_eq:
  fixes cvt :: "int \<Rightarrow> 'a::{zero,plus,times}"
  assumes "0 < T" and "steps + T \<le> 2 ^ 32"
  shows "private_worker steps cvt a dx f T t res0
         = return (map int (stride_list steps T t),
                   res0 + add_in_order 0 (\<lambda>i. f (cvt (int i) * dx + a)) (stride_list steps T t))"
  by (simp add: private_worker_def private_loop[OF assms])

lemma private_team:
  fixes cvt :: "int \<Rightarrow> 'a::{zero,plus,times}"
  assumes "0 < T" and "steps + T \<le> 2 ^ 32"
  shows "run_team (private_worker steps cvt a dx f T) order r
         = return (map (\<lambda>t. map int (stride_list steps T t)) order,
                   foldl (\<lambda>res t. res + add_in_order 0 (\<lambda>i. f (cvt (int i) * dx + a))
                                          (stride_list steps T t)) r order)"
proof -
  have "run_team (private_worker steps cvt a dx f T) order r
         = return (map (\<lambda>t. map int (stride_list steps T t)) order,
                   foldl (\<lambda>res t. res + add_in_order 0 (\<lambda>i. f (cvt (int i) * dx + a))
                                          (stride_list steps T t)) r order) \<and> True"
    by (rule run_team_unroll[where P = "\<lambda>_. True"])
       (simp_all add: private_worker_eq[OF assms])
  then show ?thesis by simp
qed

lemma default_loop:
  fixes cvt :: "int \<Rightarrow> 'a::{zero,plus,times}"
  assumes "steps < 2 ^ 32"
  shows "counting_loop steps (accumulate cvt f a dx) ([], 0)
         = return (map int [0..<steps], add_in_order 0 (\<lambda>i. f (cvt (int i) * dx + a)) [0..<steps])"
proof -
  let ?g = "\<lambda>j s. case s of (tr, R) \<Rightarrow> (tr @ [int j], R + f (cvt (int j) * dx + a))"
  have "counting_loop steps (accumulate cvt f a dx) ([], 0)
          = return (foldl (\<lambda>s j. ?g j s) ([], 0) [0..<steps]) \<and> True"
    by (rule counting_loop_unroll[where P = "\<lambda>_. True"])
       (use assms in \<open>simp_all add: accumulate_def split: prod.split\<close>)
  then show ?thesis by (simp add: foldl_trace_sum)
qed

subsection \<open>Workers with a slot of their own\<close>

lemma foldl_trace_slot:
  "t < length xs \<Longrightarrow>
   foldl (\<lambda>s j. case s of (tr, acc) \<Rightarrow> (tr @ [k j], acc[t := acc ! t + g j])) (tr0, xs) js
     = (tr0 @ map k js, xs[t := add_in_order (xs ! t) g js])"
  by (induction js arbitrary: tr0 xs) simp_all

lemma foldl_trace_slot_opt:
  "t < length xs \<Longrightarrow>
   foldl (\<lambda>s j. case s of (tr, accum) \<Rightarrow> (tr @ [k j], Some ((the accum)[t := the accum ! t + g j])))
     (tr0, Some xs) js
     = (tr0 @ map k js, Some (xs[t := add_in_order (xs ! t) g js]))"
  by (induction js arbitrary: tr0 xs) simp_all

lemma slot_loop:
  fixes cvt :: "int \<Rightarrow> 'a::{plus,times}"
  assumes "0 < T" and "steps + T \<le> 2 ^ 32" and t: "t < length xs"
  shows "strided_loop steps T (accum_add cvt f a dx t) t ([], Some xs)
         = return (map int (stride_list steps T t),
                   Some (xs[t := add_in_order (xs ! t) (\<lambda>i. f (dx * cvt (int i) + a))
                                   (stride_list steps T t)]))"
proof -
  let ?g = "\<lambda>j s. case s of (tr, accum) \<Rightarrow>
              (tr @ [int j], Some ((the accum)[t := the accum ! t + f (dx * cvt (int j) + a)]))"
  let ?P = "\<lambda>s. case s of (tr, accum) \<Rightarrow> (\<exists>ys. accum = Some ys \<and> length ys = length xs)"
  have body: "accum_add cvt f a dx t j s = return (?g j s) \<and> ?P (?g j s)" if Ps: "?P s" for j s
  proof -
    obtain tr ys where s: "s = (tr, Some ys)" and len: "length ys = length xs"
      using Ps by (cases s) auto
    show ?thesis
      using t len by (simp add: s accum_add_def add_slot_def)
  qed
  have "strided_loop steps T (accum_add cvt f a dx t) t ([], Some xs)
          = return (foldl (\<lambda>s j. ?g j s) ([], Some xs) (stride_list steps T t))
          \<and> ?P (foldl (\<lambda>s j. ?g j s) ([], Some xs) (stride_list steps T t))"
  proof (rule strided_loop_unroll[where P = ?P])
    show "0 < T" by fact
    show "steps + T \<le> 2 ^ 32" by fact
    show "?P ([], Some xs)" by simp
    show "accum_add cvt f a dx t j s = return (?g j s) \<and> ?P (?g j s)" if "j < steps" "?P s" for j s
      using that(2) by (rule body)
  qed
  then have "strided_loop steps T (accum_add cvt f a dx t) t ([], Some xs)
          = return (foldl (\<lambda>s j. ?g j s) ([], Some xs) (stride_list steps T t))"
    by (rule conjunct1)
  also have "foldl (\<lambda>s j. ?g j s) ([], Some xs) (stride_list steps T t)
      = ([] @ map int (stride_list steps T t),
         Some (xs[t := add_in_order (xs ! t) (\<lambda>i. f (dx * cvt (int i) + a)) (stride_list steps T t)]))"
    using t by (rule foldl_trace_slot_opt)
  finally show ?thesis by simp
qed

lemma vec_loop:
  fixes cvt :: "int \<Rightarrow> 'a::{plus,times}"
  assumes "0 < T" and "steps + T \<le> 2 ^ 31" and t: "t < length xs"
  shows "strided_loop_int steps T (vec_add cvt f a dx t) (int t) ([], xs)
         = return (map int (stride_list steps T t),
                   xs[t := add_in_order (xs ! t) (\<lambda>i. f (dx * cvt (int i) + a))
                             (stride_list steps T t)])"
proof -
  let ?g = "\<lambda>j s. case s of (tr, acc) \<Rightarrow> (tr @ [int j], acc[t := acc ! t + f (dx * cvt (int j) + a)])"
  let ?P = "\<lambda>s. case s of (tr, ys) \<Rightarrow> length ys = length xs"
  have body: "vec_add cvt f a dx t (int j) s = return (?g j s) \<and> ?P (?g j s)" if Ps: "?P s" for j s
  proof -
    obtain tr ys where s: "s = (tr, ys)" and len: "length ys = length xs"
      using Ps by (cases s) auto
    show ?thesis
      using t len by (simp add: s vec_add_def add_slot_def)
  qed
  have "strided_loop_int steps T (vec_add cvt f a dx t) (int t) ([], xs)
          = return (foldl (\<lambda>s j. ?g j s) ([], xs) (stride_list steps T t))
          \<and> ?P (foldl (\<lambda>s j. ?g j s) ([], xs) (stride_list steps T t))"
  proof (rule strided_loop_int_unroll[where P = ?P])
    show "0 < T" by fact
    show "steps + T \<le> 2 ^ 31" by fact
    show "?P ([], xs)" by simp
    show "vec_add cvt f a dx t (int j) s = return (?g j s) \<and> ?P (?g j s)" if "j < steps" "?P s" for j s
      using that(2) by (rule body)
  qed
  then have "strided_loop_int steps T (vec_add cvt f a dx t) (int t) ([], xs)
          = return (foldl (\<lambda>s j. ?g j s) ([], xs) (stride_list steps T t))"
    by (rule conjunct1)
  also have "foldl (\<lambda>s j. ?g j s) ([], xs) (stride_list steps T t)
      = ([] @ map int (stride_list steps T t),
         xs[t := add_in_order (xs ! t) (\<lambda>i. f (dx * cvt (int i) + a)) (stride_list steps T t)])"
    using t by (rule foldl_trace_slot)
  finally show ?thesis by simp
qed

text \<open>Every worker of the team fills its own slot.\<close>

lemma slots_length:
  "length (foldl (\<lambda>ys t. ys[t := F t (ys ! t)]) xs ts) = length xs"
  by (induction ts arbitrary: xs) simp_all

lemma slots_filled_nth:
  assumes "k \<le> length xs" and "j < length xs"
  shows "foldl (\<lambda>ys t. ys[t := F t (ys ! t)]) xs [0..<k] ! j
             = (if j < k then F j (xs ! j) else xs ! j)"
  using assms
proof (induction k)
  case 0
  then show ?case by simp
next
  case (Suc k)
  then show ?case by (auto simp: nth_list_update slots_length)
qed

lemma slots_filled:
  "foldl (\<lambda>ys t. ys[t := F t (ys ! t)]) (replicate T z) [0..<T] = map (\<lambda>t. F t z) [0..<T]"
proof (rule nth_equalityI)
  show "length (foldl (\<lambda>ys t. ys[t := F t (ys ! t)]) (replicate T z) [0..<T])
        = length (map (\<lambda>t. F t z) [0..<T])"
    by (simp add: slots_length)
next
  fix i assume "i < length (foldl (\<lambda>ys t. ys[t := F t (ys ! t)]) (replicate T z) [0..<T])"
  then have i: "i < T" by (simp add: slots_length)
  then show "foldl (\<lambda>ys t. ys[t := F t (ys ! t)]) (replicate T z) [0..<T] ! i
             = map (\<lambda>t. F t z) [0..<T] ! i"
    by (simp add: slots_filled_nth)
qed

lemma slot_team:
  fixes cvt :: "int \<Rightarrow> 'a::{zero,plus,times}"
  assumes T: "0 < T" and nowrap: "steps + T \<le> 2 ^ 32"
  shows "run_team (\<lambda>t accum. strided_loop steps T (accum_add cvt f a dx t) t ([], accum))
           [0..<T] (Some (replicate T 0))
         = return (map (\<lambda>t. map int (stride_list steps T t)) [0..<T],
                   Some (map (\<lambda>t. add_in_order 0 (\<lambda>i. f (dx * cvt (int i) + a))
                                     (stride_list steps T t)) [0..<T]))"
proof -
  let ?F = "\<lambda>t r. add_in_order r (\<lambda>i. f (dx * cvt (int i) + a)) (stride_list steps T t)"
  let ?w = "\<lambda>t accum. strided_loop steps T (accum_add cvt f a dx t) t ([], accum)"
  let ?lg = "\<lambda>t. map int (stride_list steps T t)"
  let ?h = "\<lambda>t accum. Some ((the accum)[t := ?F t (the accum ! t)])"
  let ?P = "\<lambda>accum::'a list option. \<exists>ys. accum = Some ys \<and> length ys = T"
  have fold: "foldl (\<lambda>s t. ?h t s) (Some ys) ts = Some (foldl (\<lambda>ys t. ys[t := ?F t (ys ! t)]) ys ts)"
    for ys ts
    by (induction ts arbitrary: ys) simp_all
  have "run_team ?w [0..<T] (Some (replicate T 0))
         = return (map ?lg [0..<T], foldl (\<lambda>s t. ?h t s) (Some (replicate T 0)) [0..<T])
         \<and> ?P (foldl (\<lambda>s t. ?h t s) (Some (replicate T 0)) [0..<T])"
  proof (rule run_team_unroll[where P = ?P])
    show "?P (Some (replicate T 0))" by simp
    show "?w t s = return (?lg t, ?h t s) \<and> ?P (?h t s)" if t: "t \<in> set [0..<T]" and Ps: "?P s" for t s
    proof -
      obtain ys where s: "s = Some ys" and len: "length ys = T" using Ps by auto
      have "t < length ys" using t len by simp
      then show ?thesis
        using slot_loop[OF T nowrap, of t ys cvt f a dx] len by (simp add: s)
    qed
  qed
  then show ?thesis
    by (simp add: fold slots_filled[where F = ?F])
qed

lemma vec_team:
  fixes cvt :: "int \<Rightarrow> 'a::{zero,plus,times}"
  assumes T: "0 < T" and nowrap: "steps + T \<le> 2 ^ 31"
  shows "run_team (\<lambda>t vec. strided_loop_int steps T (vec_add cvt f a dx t) (int t) ([], vec))
           [0..<T] (replicate T 0)
         = return (map (\<lambda>t. map int (stride_list steps T t)) [0..<T],
                   map (\<lambda>t. add_in_order 0 (\<lambda>i. f (dx * cvt (int i) + a))
                               (stride_list steps T t)) [0..<T])"
proof -
  let ?F = "\<lambda>t r. add_in_order r (\<lambda>i. f (dx * cvt (int i) + a)) (stride_list steps T t)"
  let ?w = "\<lambda>t vec. strided_loop_int steps T (vec_add cvt f a dx t) (int t) ([], vec)"
  let ?lg = "\<lambda>t. map int (stride_list steps T t)"
  let ?h = "\<lambda>t (ys::'a list). ys[t := ?F t (ys ! t)]"
  let ?P = "\<lambda>ys::'a list. length ys = T"
  have "run_team ?w [0..<T] (replicate T 0)
         = return (map ?lg [0..<T], foldl (\<lambda>ys t. ?h t ys) (replicate T 0) [0..<T])
         \<and> ?P (foldl (\<lambda>ys t. ?h t ys) (replicate T 0) [0..<T])"
  proof (rule run_team_unroll[where P = ?P])
    show "?P (replicate T 0)" by simp
    show "?w t s = return (?lg t, ?h t s) \<and> ?P (?h t s)" if "t \<in> set [0..<T]" "?P s" for t s
    proof -
      have "t < length s" using that by simp
      then show ?thesis
        using vec_loop[OF T nowrap, of t s cvt f a dx] that(2) by simp
    qed
  qed
  then show ?thesis
    by (simp add: slots_filled[where F = ?F])
qed

lemma caller_and_threads_team: "0 < T \<Longrightarrow> caller_and_threads T = [0..<T]"
  by (simp add: caller_and_threads_def upt_conv_Cons)

lemma foldl_nth: "foldl (\<lambda>r i. r + xs ! i) r [0..<length xs] = foldl (+) r xs"
proof -
  have "foldl (\<lambda>r i. r + xs ! i) r is = foldl (+) r (map ((!) xs) is)" for "is"
    by (induction "is" arbitrary: r) simp_all
  then show ?thesis by (simp add: map_nth)
qed

lemma read_loop:
  fixes xs :: "'a::{zero,plus} list"
  assumes "length xs < 2 ^ 32"
  shows "counting_loop (length xs) (accum_read (Some xs)) 0 = return (foldl (+) 0 xs)"
proof -
  have "counting_loop (length xs) (accum_read (Some xs)) 0
          = return (foldl (\<lambda>r i. r + xs ! i) 0 [0..<length xs]) \<and> True"
    by (rule counting_loop_unroll[where P = "\<lambda>_. True"])
       (use assms in \<open>simp_all add: accum_read_def\<close>)
  then show ?thesis by (simp add: foldl_nth)
qed

lemma reduction_team:
  fixes cvt :: "int \<Rightarrow> 'a::{zero,plus,times}"
  shows "run_team (reduction_worker cvt a dx f sched) order r
         = return (map (\<lambda>t. map int (sched ! t)) order,
                   foldl (\<lambda>res t. res + add_in_order 0 (\<lambda>i. f (dx * cvt (int i) + a)) (sched ! t))
                     r order)"
proof -
  have "run_team (reduction_worker cvt a dx f sched) order r
         = return (map (\<lambda>t. map int (sched ! t)) order,
                   foldl (\<lambda>res t. res + add_in_order 0 (\<lambda>i. f (dx * cvt (int i) + a)) (sched ! t))
                     r order) \<and> True"
    by (rule run_team_unroll[where P = "\<lambda>_. True"])
       (simp_all add: reduction_worker_def add_in_order_def)
  then show ?thesis by simp
qed

subsection \<open>What the integrators return\<close>

lemma integrateDefault_eq:
  fixes cvt :: "int \<Rightarrow> 'a::{zero,plus,minus,times,inverse}"
  assumes "steps < 2 ^ 32"
  shows "integrateDefault steps cvt a b f
         = return \<lparr>threads = [], samples = [map int [0..<steps]],
                    ret = add_in_order 0 (\<lambda>i. f (cvt (int i) * ((b - a) / cvt (int steps)) + a)) [0..<steps]
                          * ((b - a) / cvt (int steps))\<rparr>"
  by (simp add: integrateDefault_def Let_def default_loop[OF assms])

lemma integrateCrit_eq:
  fixes cvt :: "int \<Rightarrow> 'a::{zero,plus,minus,times,inverse}"
  assumes "0 < T" and "steps + T \<le> 2 ^ 32"
  shows "integrateCrit steps cvt a b f T order
         = return \<lparr>threads = [], samples = map (\<lambda>t. map int (stride_list steps T t)) order,
                    ret = foldl (\<lambda>res t. res + add_in_order 0
                                   (\<lambda>i. f (cvt (int i) * ((b - a) / cvt (int steps)) + a))
                                   (stride_list steps T t)) 0 order
                          * ((b - a) / cvt (int steps))\<rparr>"
  by (simp add: integrateCrit_def Let_def private_team[OF assms])

lemma integrateMutex_eq:
  fixes cvt :: "int \<Rightarrow> 'a::{zero,plus,minus,times,inverse}"
  assumes "0 < T" and "steps + T \<le> 2 ^ 32"
  shows "integrateMutex steps cvt a b f T order
         = return \<lparr>threads = [0..<T], samples = map (\<lambda>t. map int (stride_list steps T t)) order,
                    ret = foldl (\<lambda>res t. res + add_in_order 0
                                   (\<lambda>i. f (cvt (int i) * ((b - a) / cvt (int steps)) + a))
                                   (stride_list steps T t)) 0 order
                          * ((b - a) / cvt (int steps))\<rparr>"
  by (simp add: integrateMutex_def Let_def private_team[OF assms])

lemma integrateAtomic_eq:
  fixes cvt :: "int \<Rightarrow> 'a::{zero,plus,minus,times,inverse}"
  assumes "0 < T" and "steps + T \<le> 2 ^ 32"
  shows "integrateAtomic steps cvt a b f T order
         = return \<lparr>threads = [1..<T], samples = map (\<lambda>t. map int (stride_list steps T t)) order,
                    ret = foldl (\<lambda>res t. res + add_in_order 0
                                   (\<lambda>i. f (cvt (int i) * ((b - a) / cvt (int steps)) + a))
                                   (stride_list steps T t)) 0 order
                          * ((b - a) / cvt (int steps))\<rparr>"
  by (simp add: integrateAtomic_def Let_def private_team[OF assms])

lemma integrateArr_eq:
  fixes cvt :: "int \<Rightarrow> 'a::{zero,plus,minus,times,inverse}"
  assumes T: "0 < T" and nowrap: "steps + T \<le> 2 ^ 32" and steps: "0 < steps"
  shows "integrateArr steps cvt a b f T True
         = return \<lparr>threads = [], samples = map (\<lambda>t. map int (stride_list steps T t)) [0..<T],
                    ret = foldl (+) 0 (map (\<lambda>t. add_in_order 0
                                   (\<lambda>i. f ((b - a) / cvt (int steps) * cvt (int i) + a))
                                   (stride_list steps T t)) [0..<T])
                          * ((b - a) / cvt (int steps))\<rparr>"
proof -
  let ?dx = "(b - a) / cvt (int steps)"
  let ?xs = "map (\<lambda>t. add_in_order 0 (\<lambda>i. f (?dx * cvt (int i) + a)) (stride_list steps T t)) [0..<T]"
  have "length ?xs < 2 ^ 32" using nowrap steps by simp
  then have "counting_loop (length ?xs) (accum_read (Some ?xs)) 0 = return (foldl (+) 0 ?xs)"
    by (rule read_loop)
  then have rd: "counting_loop T (accum_read (Some ?xs)) 0 = return (foldl (+) 0 ?xs)"
    by simp
  show ?thesis
    by (simp add: integrateArr_def Let_def slot_team[OF T nowrap] rd)
qed

lemma integrateArrAlign_eq:
  fixes cvt :: "int \<Rightarrow> 'a::{zero,plus,minus,times,inverse}"
  assumes T: "0 < T" and nowrap: "steps + T \<le> 2 ^ 32" and steps: "0 < steps"
  shows "integrateArrAlign steps cvt a b f T True
         = return \<lparr>threads = [], samples = map (\<lambda>t. map int (stride_list steps T t)) [0..<T],
                    ret = foldl (+) 0 (map (\<lambda>t. add_in_order 0
                                   (\<lambda>i. f ((b - a) / cvt (int steps) * cvt (int i) + a))
                                   (stride_list steps T t)) [0..<T])
                          * ((b - a) / cvt (int steps))\<rparr>"
proof -
  let ?dx = "(b - a) / cvt (int steps)"
  let ?xs = "map (\<lambda>t. add_in_order 0 (\<lambda>i. f (?dx * cvt (int i) + a)) (stride_list steps T t)) [0..<T]"
  have "length ?xs < 2 ^ 32" using nowrap steps by simp
  then have "counting_loop (length ?xs) (accum_read (Some ?xs)) 0 = return (foldl (+) 0 ?xs)"
    by (rule read_loop)
  then have rd: "counting_loop T (accum_read (Some ?xs)) 0 = return (foldl (+) 0 ?xs)"
    by simp
  show ?thesis
    by (simp add: integrateArrAlign_def Let_def slot_team[OF T nowrap] rd)
qed

lemma integratePS_eq:
  fixes cvt :: "int \<Rightarrow> 'a::{zero,plus,minus,times,inverse}"
  assumes T: "0 < T" and nowrap: "steps + T \<le> 2 ^ 31"
  shows "integratePS steps cvt a b f T
         = return \<lparr>threads = [1..<T], samples = map (\<lambda>t. map int (stride_list steps T t)) [0..<T],
                    ret = foldl (+) 0 (map (\<lambda>t. add_in_order 0
                                   (\<lambda>i. f ((b - a) / cvt (int steps) * cvt (int i) + a))
                                   (stride_list steps T t)) [0..<T])
                          * ((b - a) / cvt (int steps))\<rparr>"
  by (simp add: integratePS_def Let_def caller_and_threads_team[OF T] vec_team[OF T nowrap])

lemma integrateReduction_eq:
  fixes cvt :: "int \<Rightarrow> 'a::{zero,plus,minus,times,inverse}"
  shows "integrateReduction steps cvt a b f sched order
         = return \<lparr>threads = [], samples = map (\<lambda>t. map int (sched ! t)) order,
                    ret = foldl (\<lambda>res t. res + add_in_order 0
                                   (\<lambda>i. f ((b - a) / cvt (int steps) * cvt (int i) + a))
                                   (sched ! t)) 0 order
                          * ((b - a) / cvt (int steps))\<rparr>"
  by (simp add: integrateReduction_def Let_def reduction_team)

subsection \<open>Exact arithmetic\<close>

lemma add_in_order_sum_list:
  fixes r :: "'a::monoid_add"
  shows "add_in_order r g xs = r + sum_list (map g xs)"
  by (induction xs arbitrary: r) (simp_all add: add.assoc)

lemma foldl_add_sum_list:
  fixes r :: "'a::monoid_add"
  shows "foldl (\<lambda>res t. res + G t) r ts = r + sum_list (map G ts)"
  by (induction ts arbitrary: r) (simp_all add: add.assoc)


lemma mset_concat_map:
  "mset (concat (map F xs)) = (\<Sum>x\<in>#mset xs. mset (F x))"
  by (induction xs) simp_all

lemma mset_concat_cong:
  "mset xs = mset ys \<Longrightarrow> mset (concat (map F xs)) = mset (concat (map F ys))"
  by (simp add: mset_concat_map)

lemma count_concat_map:
  "count (mset (concat (map F xs))) x = sum_list (map (\<lambda>t. count (mset (F t)) x) xs)"
  by (induction xs) simp_all

lemma mset_strides:
  assumes T: "0 < T"
  shows "mset (concat (map (stride_list n T) [0..<T])) = mset [0..<n]"
proof (rule multiset_eqI)
  fix x
  have cnt: "count (mset (stride_list n T t)) x = (if x < n \<and> x mod T = t then 1 else 0)"
    if "t < T" for t
    using distinct_stride_list[of n T t] set_stride_list_worker[OF that, of n]
    by (simp add: distinct_count_atmost_1)
  have "count (mset (concat (map (stride_list n T) [0..<T]))) x
        = sum_list (map (\<lambda>t. count (mset (stride_list n T t)) x) [0..<T])"
    by (rule count_concat_map)
  also have "\<dots> = sum_list (map (\<lambda>t. if x < n \<and> x mod T = t then 1 else 0) [0..<T])"
    by (rule arg_cong[where f = sum_list], rule map_cong) (simp_all add: cnt)
  also have "\<dots> = (\<Sum>t = 0..<T. if x < n \<and> x mod T = t then 1 else 0)"
    by (simp add: interv_sum_list_conv_sum_set_nat)
  also have "\<dots> = (if x < n then 1 else 0)"
  proof (cases "x < n")
    case True
    have "x mod T \<in> {0..<T}" using T by simp
    then show ?thesis using True by (simp add: sum.delta)
  next
    case False
    then show ?thesis by simp
  qed
  also have "\<dots> = count (mset [0..<n]) x"
    by (simp add: count_mset_0_iff distinct_count_atmost_1)
  finally show "count (mset (concat (map (stride_list n T) [0..<T]))) x = count (mset [0..<n]) x" .
qed

lemma mset_strides_order:
  assumes "0 < T" and "mset order = mset [0..<T]"
  shows "mset (concat (map (stride_list n T) order)) = mset [0..<n]"
  using mset_concat_cong[OF assms(2), of "stride_list n T"] mset_strides[OF assms(1), of n] by simp

lemma sum_list_parts:
  fixes g :: "nat \<Rightarrow> 'a::comm_monoid_add"
  assumes "mset (concat (map F ts)) = mset [0..<n]"
  shows "sum_list (map (\<lambda>t. sum_list (map g (F t))) ts) = (\<Sum>i<n. g i)"
proof -
  have "sum_list (map (\<lambda>t. sum_list (map g (F t))) ts) = sum_list (map g (concat (map F ts)))"
    by (induction ts) simp_all
  also have "\<dots> = sum_mset (image_mset g (mset (concat (map F ts))))"
    by (metis mset_map sum_mset_sum_list)
  also have "\<dots> = sum_mset (image_mset g (mset [0..<n]))"
    using assms by simp
  also have "\<dots> = sum_list (map g [0..<n])"
    by (metis mset_map sum_mset_sum_list)
  also have "\<dots> = (\<Sum>i<n. g i)"
    by (simp add: interv_sum_list_conv_sum_set_nat atLeast0LessThan)
  finally show ?thesis .
qed

lemma samples_parts:
  assumes "mset (concat (map F ts)) = mset [0..<n]"
  shows "mset (concat (map (\<lambda>t. map int (F t)) ts)) = mset (map int [0..<n])"
proof -
  have "concat (map (\<lambda>t. map int (F t)) ts) = map int (concat (map F ts))"
    by (induction ts) simp_all
  then show ?thesis using assms by (metis mset_map)
qed

subsection \<open>Exact arithmetic: every strategy computes the Riemann sum\<close>

lemma evaluates_riemannI:
  assumes "m = return \<lparr>threads = ths, samples = map (\<lambda>t. map int (F t)) ts, ret = v\<rparr>"
    and "mset (concat (map F ts)) = mset [0..<n]"
    and "v = riemann_sum n a b f"
  shows "evaluates_riemann n a b f m"
proof -
  have m: "mset (concat (map (\<lambda>t. map int (F t)) ts)) = mset (map int [0..<n])"
    using assms(2) by (rule samples_parts)
  have "\<forall>i \<in> set (concat (map (\<lambda>t. map int (F t)) ts)). 0 \<le> i \<and> i < int n"
  proof
    fix i assume "i \<in> set (concat (map (\<lambda>t. map int (F t)) ts))"
    then have "i \<in># mset (concat (map (\<lambda>t. map int (F t)) ts))" by simp
    then have "i \<in># mset (map int [0..<n])" using m by simp
    then show "0 \<le> i \<and> i < int n" by auto
  qed
  then show ?thesis
    using assms(1,3) m by (simp add: evaluates_riemann_def return_def)
qed

lemma evaluates_riemann_returns:
  "evaluates_riemann n a b f m \<Longrightarrow> returns m (riemann_sum n a b f)"
  by (auto simp: evaluates_riemann_def returns_def)



lemma riemann_left:
  "(\<Sum>i<n. f (real_of_int (int i) * ((b - a) / real_of_int (int n)) + a)) * ((b - a) / real_of_int (int n))
     = riemann_sum n a b f"
  by (simp add: riemann_sum_def add.commute)


lemma integrateDefault_exact:
  assumes "steps < 2 ^ 32"
  shows "evaluates_riemann steps a b f (integrateDefault steps real_of_int a b f)"
proof -
  let ?dx = "(b - a) / real_of_int (int steps)"
  let ?g = "\<lambda>i. f (real_of_int (int i) * ?dx + a)"
  have parts: "mset (concat (map (\<lambda>t. [0..<steps]) [0::nat])) = mset [0..<steps]"
    by simp
  have "add_in_order 0 ?g [0..<steps] = (\<Sum>i < steps. ?g i)"
    by (simp add: add_in_order_sum_list interv_sum_list_conv_sum_set_nat atLeast0LessThan)
  then have v: "add_in_order 0 ?g [0..<steps] * ?dx = riemann_sum steps a b f"
    by (simp only: riemann_left)
  have eq: "integrateDefault steps real_of_int a b f
        = return \<lparr>threads = [], samples = map (\<lambda>t. map int [0..<steps]) [0::nat],
                   ret = add_in_order 0 ?g [0..<steps] * ?dx\<rparr>"
    by (simp add: integrateDefault_eq[OF assms])
  show ?thesis
    using eq parts v by (rule evaluates_riemannI)
qed








lemma nowrap_weaken: "steps + T \<le> (2::nat) ^ 31 \<Longrightarrow> steps + T \<le> 2 ^ 32"
  by simp

subsection \<open>Rounding errors of the sums\<close>

lemma u_pos: "0 < unit_roundoff" by (simp add: unit_roundoff_def)

lemma roundoff_power_bound:
  assumes "n \<le> 2 ^ 31 + 1"
  shows "(1 + unit_roundoff) ^ n \<le> 1 + 1 / 4000000"
proof -
  let ?u = unit_roundoff
  let ?c = "(2 ^ 31 + 1) * ?u"
  have "(1 + ?u) ^ n \<le> (1 + ?u) ^ (2 ^ 31 + 1)"
    using assms u_pos by (intro power_increasing) simp_all
  also have "\<dots> \<le> exp ?u ^ (2 ^ 31 + 1)"
    using u_pos exp_ge_add_one_self[of ?u] by (intro power_mono) simp_all
  also have "\<dots> = exp (real (2 ^ 31 + 1) * ?u)"
    by (simp only: exp_of_nat_mult)
  also have "\<dots> \<le> 1 + real (2 ^ 31 + 1) * ?u + (real (2 ^ 31 + 1) * ?u)\<^sup>2"
    by (rule exp_bound) (simp_all add: unit_roundoff_def)
  also have "\<dots> \<le> 1 + 1 / 4000000"
    by (simp add: unit_roundoff_def power2_eq_square)
  finally show ?thesis .
qed


lemma u_nonneg: "0 \<le> unit_roundoff" by (simp add: unit_roundoff_def)

lemma roundoff_power_ge_1: "1 \<le> (1 + unit_roundoff) ^ n"
  using u_nonneg by (intro one_le_power) simp

lemma roundoff_power_mono: "m \<le> n \<Longrightarrow> (1 + unit_roundoff) ^ m \<le> (1 + unit_roundoff) ^ n"
  using u_nonneg by (intro power_increasing) simp_all

lemma abs_sum_list_le:
  fixes h :: "'b \<Rightarrow> real"
  shows "\<bar>\<Sum>i\<leftarrow>xs. h i\<bar> \<le> (\<Sum>i\<leftarrow>xs. \<bar>h i\<bar>)"
  by (induction xs) auto

lemma sum_list_abs_nonneg:
  fixes h :: "'b \<Rightarrow> real"
  shows "0 \<le> (\<Sum>i\<leftarrow>xs. \<bar>h i\<bar>)"
  by (induction xs) auto

text \<open>
  Adding \<open>n\<close> doubles one after the other: the result differs from the exact sum by at
  most the fraction \<open>(1 + u)\<^sup>n - 1\<close> of the sum of the magnitudes.
\<close>

lemma seq_sum:
  fixes val :: "'a::plus \<Rightarrow> real" and g :: "nat \<Rightarrow> 'a"
  assumes add: "\<And>x y. fin x \<Longrightarrow> fin y \<Longrightarrow> \<bar>val x + val y\<bar> \<le> overflow_bound
                  \<Longrightarrow> fin (x + y) \<and> \<bar>val (x + y) - (val x + val y)\<bar> \<le> unit_roundoff * \<bar>val x + val y\<bar>"
    and r: "fin r"
    and g: "\<forall>i \<in> set xs. fin (g i)"
    and E: "(1 + unit_roundoff) ^ length xs \<le> 2"
    and B: "2 * (\<bar>val r\<bar> + (\<Sum>i\<leftarrow>xs. \<bar>val (g i)\<bar>)) \<le> overflow_bound"
  shows "fin (add_in_order r g xs)
       \<and> \<bar>val (add_in_order r g xs) - (val r + (\<Sum>i\<leftarrow>xs. val (g i)))\<bar>
           \<le> ((1 + unit_roundoff) ^ length xs - 1) * (\<bar>val r\<bar> + (\<Sum>i\<leftarrow>xs. \<bar>val (g i)\<bar>))"
  using g E B
proof (induction xs rule: rev_induct)
  case Nil
  show ?case using r by simp
next
  case (snoc x xs)
  define u where "u = unit_roundoff"
  define e where "e = (1 + u) ^ length xs"
  define A where "A = \<bar>val r\<bar> + (\<Sum>i\<leftarrow>xs. \<bar>val (g i)\<bar>)"
  define X where "X = val r + (\<Sum>i\<leftarrow>xs. val (g i))"
  define S where "S = add_in_order r g xs"
  define v where "v = val (g x)"
  have u0: "0 \<le> u" unfolding u_def by (rule u_nonneg)
  have e1: "1 \<le> e" unfolding e_def u_def by (rule roundoff_power_ge_1)
  have A0: "0 \<le> A" unfolding A_def using sum_list_abs_nonneg[of "\<lambda>i. val (g i)" xs] by simp
  have "e \<le> (1 + u) ^ length (xs @ [x])"
    unfolding e_def u_def by (rule roundoff_power_mono) simp
  then have e2: "e \<le> 2" using snoc.prems(2) unfolding u_def by simp
  have B': "2 * (A + \<bar>v\<bar>) \<le> overflow_bound"
    using snoc.prems(3) unfolding A_def v_def by simp
  have IH: "fin S \<and> \<bar>val S - X\<bar> \<le> (e - 1) * A"
    unfolding S_def X_def e_def A_def u_def
  proof (rule snoc.IH)
    show "\<forall>i \<in> set xs. fin (g i)" using snoc.prems(1) by simp
    show "(1 + unit_roundoff) ^ length xs \<le> 2" using e2 unfolding e_def u_def .
    have "2 * A \<le> 2 * (A + \<bar>v\<bar>)" by simp
    then show "2 * (\<bar>val r\<bar> + (\<Sum>i\<leftarrow>xs. \<bar>val (g i)\<bar>)) \<le> overflow_bound"
      using B' unfolding A_def by linarith
  qed
  have XA: "\<bar>X\<bar> \<le> A"
    unfolding X_def A_def using abs_sum_list_le[of "\<lambda>i. val (g i)" xs] by linarith
  have "\<bar>val S\<bar> \<le> \<bar>X\<bar> + \<bar>val S - X\<bar>" by linarith
  also have "\<dots> \<le> A + (e - 1) * A" using XA IH by linarith
  also have "\<dots> = e * A" by (simp add: algebra_simps)
  finally have SA: "\<bar>val S\<bar> \<le> e * A" .
  have "e * A \<le> 2 * A" using e2 A0 by (rule mult_right_mono)
  then have eA2: "e * A + \<bar>v\<bar> \<le> 2 * (A + \<bar>v\<bar>)" by simp
  have Sv: "\<bar>val S + v\<bar> \<le> e * A + \<bar>v\<bar>"
    using SA by linarith
  then have "\<bar>val S + v\<bar> \<le> overflow_bound"
    using eA2 B' by linarith
  moreover have "fin (g x)" using snoc.prems(1) by simp
  ultimately have st: "fin (S + g x)"
      "\<bar>val (S + g x) - (val S + v)\<bar> \<le> u * \<bar>val S + v\<bar>"
    using add[of S "g x"] IH unfolding v_def u_def by simp_all
  have "u * \<bar>val S + v\<bar> \<le> u * (e * A + \<bar>v\<bar>)"
    using Sv u0 by (rule mult_left_mono)
  then have "\<bar>val (S + g x) - (X + v)\<bar> \<le> u * (e * A + \<bar>v\<bar>) + (e - 1) * A"
    using st(2) IH by linarith
  also have "\<dots> \<le> ((1 + u) * e - 1) * (A + \<bar>v\<bar>)"
  proof -
    have "((1 + u) * e - 1) * (A + \<bar>v\<bar>) - (u * (e * A + \<bar>v\<bar>) + (e - 1) * A)
          = (1 + u) * (e - 1) * \<bar>v\<bar>"
      by (simp add: algebra_simps)
    moreover have "0 \<le> (1 + u) * (e - 1) * \<bar>v\<bar>"
      using u0 e1 by simp
    ultimately show ?thesis by linarith
  qed
  finally have "\<bar>val (S + g x) - (X + v)\<bar> \<le> ((1 + u) * e - 1) * (A + \<bar>v\<bar>)" .
  then show ?case
    using st(1) unfolding S_def X_def v_def e_def A_def u_def
    by (simp add: add.assoc)
qed


lemma sum_list_diff_bound:
  fixes P Q a :: "'b \<Rightarrow> real"
  assumes "\<forall>t \<in> set ts. \<bar>P t - Q t\<bar> \<le> c * a t"
  shows "\<bar>(\<Sum>t\<leftarrow>ts. P t) - (\<Sum>t\<leftarrow>ts. Q t)\<bar> \<le> c * (\<Sum>t\<leftarrow>ts. a t)"
  using assms
proof (induction ts)
  case Nil
  show ?case by simp
next
  case (Cons t ts)
  have "\<bar>P t - Q t\<bar> \<le> c * a t" using Cons.prems by simp
  moreover have "\<bar>(\<Sum>t\<leftarrow>ts. P t) - (\<Sum>t\<leftarrow>ts. Q t)\<bar> \<le> c * (\<Sum>t\<leftarrow>ts. a t)"
    using Cons.prems by (intro Cons.IH) simp
  ultimately show ?case by (simp add: algebra_simps)
qed

lemma sum_list_abs_bound:
  fixes P a :: "'b \<Rightarrow> real"
  assumes "\<forall>t \<in> set ts. \<bar>P t\<bar> \<le> c * a t"
  shows "(\<Sum>t\<leftarrow>ts. \<bar>P t\<bar>) \<le> c * (\<Sum>t\<leftarrow>ts. a t)"
  using assms
proof (induction ts)
  case Nil
  show ?case by simp
next
  case (Cons t ts)
  have "\<bar>P t\<bar> \<le> c * a t" using Cons.prems by simp
  moreover have "(\<Sum>t\<leftarrow>ts. \<bar>P t\<bar>) \<le> c * (\<Sum>t\<leftarrow>ts. a t)"
    using Cons.prems by (intro Cons.IH) simp
  ultimately show ?case by (simp add: algebra_simps)
qed

lemma member_le_sum_list_real:
  fixes h :: "'b \<Rightarrow> real"
  assumes "t \<in> set ts" and "\<forall>t. 0 \<le> h t"
  shows "h t \<le> (\<Sum>t\<leftarrow>ts. h t)"
  using assms(1)
proof (induction ts)
  case Nil
  then show ?case by simp
next
  case (Cons x ts)
  have "0 \<le> (\<Sum>t\<leftarrow>ts. h t)" using assms(2) by (intro sum_list_nonneg) auto
  moreover have "0 \<le> h x" using assms(2) by simp
  ultimately show ?case using Cons by auto
qed

lemma part_length:
  assumes "mset (concat (map F ts)) = mset [0..<n]" and "t \<in> set ts"
  shows "length (F t) \<le> n"
proof -
  have "length (F t) \<in> set (map (\<lambda>t. length (F t)) ts)" using assms(2) by simp
  then have "length (F t) \<le> sum_list (map (\<lambda>t. length (F t)) ts)"
    by (intro member_le_sum_list) simp_all
  also have "\<dots> = length (concat (map F ts))"
    by (simp add: length_concat comp_def)
  also have "\<dots> = length [0..<n]"
    using assms(1) by (rule mset_eq_length)
  finally show ?thesis by simp
qed

lemma part_members:
  assumes "mset (concat (map F ts)) = mset [0..<n]" and "t \<in> set ts" and "i \<in> set (F t)"
  shows "i < n"
proof -
  have "i \<in> set (concat (map F ts))" using assms(2,3) by auto
  also have "set (concat (map F ts)) = set [0..<n]"
    using assms(1) by (rule mset_eq_setD)
  finally show ?thesis by simp
qed

text \<open>
  The same for the strategies: every worker adds up its share, and the partial sums are
  added up in turn.
\<close>

lemma two_level_sum:
  fixes val :: "'a::{zero,plus} \<Rightarrow> real" and g :: "nat \<Rightarrow> 'a" and F :: "nat \<Rightarrow> nat list"
  assumes add: "\<And>x y. fin x \<Longrightarrow> fin y \<Longrightarrow> \<bar>val x + val y\<bar> \<le> overflow_bound
                  \<Longrightarrow> fin (x + y) \<and> \<bar>val (x + y) - (val x + val y)\<bar> \<le> unit_roundoff * \<bar>val x + val y\<bar>"
    and zero: "fin 0" "val 0 = 0"
    and parts: "mset (concat (map F ts)) = mset [0..<n]"
    and g: "\<forall>i<n. fin (g i)"
    and E: "(1 + unit_roundoff) ^ (n + length ts) \<le> 2"
    and B: "4 * (\<Sum>i<n. \<bar>val (g i)\<bar>) \<le> overflow_bound"
  shows "fin (add_in_order 0 (\<lambda>t. add_in_order 0 g (F t)) ts)
       \<and> \<bar>val (add_in_order 0 (\<lambda>t. add_in_order 0 g (F t)) ts) - (\<Sum>i<n. val (g i))\<bar>
           \<le> ((1 + unit_roundoff) ^ (n + length ts) - 1) * (\<Sum>i<n. \<bar>val (g i)\<bar>)"
proof -
  define u where "u = unit_roundoff"
  define p where "p t = add_in_order 0 g (F t)" for t
  define a where "a t = (\<Sum>i\<leftarrow>F t. \<bar>val (g i)\<bar>)" for t
  define s where "s t = (\<Sum>i\<leftarrow>F t. val (g i))" for t
  define A where "A = (\<Sum>i<n. \<bar>val (g i)\<bar>)"
  define en where "en = (1 + u) ^ n"
  define eT where "eT = (1 + u) ^ length ts"
  define R where "R = add_in_order 0 p ts"
  have u0: "0 \<le> u" unfolding u_def by (rule u_nonneg)
  have en1: "1 \<le> en" unfolding en_def u_def by (rule roundoff_power_ge_1)
  have eT1: "1 \<le> eT" unfolding eT_def u_def by (rule roundoff_power_ge_1)
  have en2: "en \<le> 2"
    using roundoff_power_mono[of n "n + length ts"] E unfolding en_def u_def by simp
  have eT2: "eT \<le> 2"
    using roundoff_power_mono[of "length ts" "n + length ts"] E unfolding eT_def u_def by simp
  have eneT: "en * eT = (1 + u) ^ (n + length ts)"
    unfolding en_def eT_def by (simp add: power_add)
  have A0: "0 \<le> A" unfolding A_def by (intro sum_nonneg) simp
  have sumA: "(\<Sum>t\<leftarrow>ts. a t) = A"
    unfolding a_def A_def using sum_list_parts[OF parts, of "\<lambda>i. \<bar>val (g i)\<bar>"] .
  have sumS: "(\<Sum>t\<leftarrow>ts. s t) = (\<Sum>i<n. val (g i))"
    unfolding s_def using sum_list_parts[OF parts, of "\<lambda>i. val (g i)"] .
  have a0: "0 \<le> a t" for t unfolding a_def by (rule sum_list_abs_nonneg)
  have aA: "a t \<le> A" if "t \<in> set ts" for t
    using member_le_sum_list_real[OF that, of a] a0 sumA by simp
  have sa: "\<bar>s t\<bar> \<le> a t" for t
    unfolding s_def a_def by (rule abs_sum_list_le)
  have lvl1: "fin (p t) \<and> \<bar>val (p t) - s t\<bar> \<le> (en - 1) * a t" if t: "t \<in> set ts" for t
  proof -
    have len: "length (F t) \<le> n" using parts t by (rule part_length)
    have "\<forall>i \<in> set (F t). fin (g i)"
      using part_members[OF parts t] g by blast
    moreover have e: "(1 + unit_roundoff) ^ length (F t) \<le> en"
      unfolding en_def u_def using len by (rule roundoff_power_mono)
    then have "(1 + unit_roundoff) ^ length (F t) \<le> 2" using en2 by linarith
    moreover have "2 * a t \<le> overflow_bound"
      using aA[OF t] A0 B unfolding A_def by linarith
    then have "2 * (\<bar>val (0::'a)\<bar> + (\<Sum>i\<leftarrow>F t. \<bar>val (g i)\<bar>)) \<le> overflow_bound"
      using zero(2) unfolding a_def by simp
    ultimately have st: "fin (add_in_order 0 g (F t))
       \<and> \<bar>val (add_in_order 0 g (F t)) - (val (0::'a) + (\<Sum>i\<leftarrow>F t. val (g i)))\<bar>
           \<le> ((1 + unit_roundoff) ^ length (F t) - 1) * (\<bar>val (0::'a)\<bar> + (\<Sum>i\<leftarrow>F t. \<bar>val (g i)\<bar>))"
      using zero(1) by (intro seq_sum add) 
    then have "\<bar>val (p t) - s t\<bar> \<le> ((1 + unit_roundoff) ^ length (F t) - 1) * a t"
      unfolding p_def s_def a_def using zero(2) by simp
    also have "\<dots> \<le> (en - 1) * a t"
      using e a0[of t] by (intro mult_right_mono) simp_all
    finally show ?thesis using st unfolding p_def by simp
  qed
  have pa: "\<bar>val (p t)\<bar> \<le> en * a t" if t: "t \<in> set ts" for t
  proof -
    have "\<bar>val (p t)\<bar> \<le> \<bar>s t\<bar> + \<bar>val (p t) - s t\<bar>" by linarith
    also have "\<dots> \<le> a t + (en - 1) * a t" using sa[of t] lvl1[OF t] by linarith
    also have "\<dots> = en * a t" by (simp add: algebra_simps)
    finally show ?thesis .
  qed
  have sump: "(\<Sum>t\<leftarrow>ts. \<bar>val (p t)\<bar>) \<le> en * A"
    using sum_list_abs_bound[of ts "\<lambda>t. val (p t)" en a] pa sumA by simp
  have "en * A \<le> 2 * A" using en2 A0 by (rule mult_right_mono)
  then have "2 * (\<Sum>t\<leftarrow>ts. \<bar>val (p t)\<bar>) \<le> overflow_bound"
    using sump B unfolding A_def by linarith
  then have B2: "2 * (\<bar>val (0::'a)\<bar> + (\<Sum>t\<leftarrow>ts. \<bar>val (p t)\<bar>)) \<le> overflow_bound"
    using zero(2) by simp
  have "\<forall>t \<in> set ts. fin (p t)" using lvl1 by simp
  moreover have "(1 + unit_roundoff) ^ length ts \<le> 2" using eT2 unfolding eT_def u_def .
  ultimately have lvl2: "fin (add_in_order 0 p ts)
       \<and> \<bar>val (add_in_order 0 p ts) - (val (0::'a) + (\<Sum>t\<leftarrow>ts. val (p t)))\<bar>
           \<le> ((1 + unit_roundoff) ^ length ts - 1) * (\<bar>val (0::'a)\<bar> + (\<Sum>t\<leftarrow>ts. \<bar>val (p t)\<bar>))"
    using zero(1) B2 by (intro seq_sum add)
  then have "\<bar>val R - (\<Sum>t\<leftarrow>ts. val (p t))\<bar> \<le> (eT - 1) * (\<Sum>t\<leftarrow>ts. \<bar>val (p t)\<bar>)"
    unfolding R_def eT_def u_def using zero(2) by simp
  also have "\<dots> \<le> (eT - 1) * (en * A)"
    using sump eT1 by (intro mult_left_mono) simp_all
  finally have d2: "\<bar>val R - (\<Sum>t\<leftarrow>ts. val (p t))\<bar> \<le> (eT - 1) * (en * A)" .
  have d1: "\<bar>(\<Sum>t\<leftarrow>ts. val (p t)) - (\<Sum>i<n. val (g i))\<bar> \<le> (en - 1) * A"
    using sum_list_diff_bound[of ts "\<lambda>t. val (p t)" s "en - 1" a] lvl1 sumA sumS by simp
  have "\<bar>val R - (\<Sum>i<n. val (g i))\<bar> \<le> (eT - 1) * (en * A) + (en - 1) * A"
    using d1 d2 by linarith
  also have "\<dots> = (en * eT - 1) * A" by (simp add: algebra_simps)
  finally have "\<bar>val R - (\<Sum>i<n. val (g i))\<bar> \<le> ((1 + u) ^ (n + length ts) - 1) * A"
    by (simp only: eneT)
  then show ?thesis
    using lvl2 unfolding R_def p_def A_def u_def by simp
qed


lemma binary64_zero: "binary64 val fin cvt \<Longrightarrow> fin 0 \<and> val 0 = 0"
  by (simp add: binary64_def)

lemma binary64_cvt:
  "binary64 val fin cvt \<Longrightarrow> \<bar>i\<bar> \<le> 2 ^ 53 \<Longrightarrow> fin (cvt i) \<and> val (cvt i) = real_of_int i"
  by (simp add: binary64_def)

lemma binary64_add:
  "binary64 val fin cvt \<Longrightarrow> fin x \<Longrightarrow> fin y \<Longrightarrow> \<bar>val x + val y\<bar> \<le> overflow_bound
     \<Longrightarrow> fin (x + y) \<and> \<bar>val (x + y) - (val x + val y)\<bar> \<le> unit_roundoff * \<bar>val x + val y\<bar>"
  by (simp add: binary64_def)

lemma binary64_sub:
  "binary64 val fin cvt \<Longrightarrow> fin x \<Longrightarrow> fin y \<Longrightarrow> \<bar>val x - val y\<bar> \<le> overflow_bound
     \<Longrightarrow> fin (x - y) \<and> \<bar>val (x - y) - (val x - val y)\<bar> \<le> unit_roundoff * \<bar>val x - val y\<bar>"
  by (simp add: binary64_def)

lemma binary64_mult:
  "binary64 val fin cvt \<Longrightarrow> fin x \<Longrightarrow> fin y \<Longrightarrow> \<bar>val x * val y\<bar> \<le> overflow_bound
     \<Longrightarrow> fin (x * y)
       \<and> \<bar>val (x * y) - val x * val y\<bar> \<le> unit_roundoff * \<bar>val x * val y\<bar> + half_min_subnormal"
  by (simp add: binary64_def)

lemma binary64_div:
  "binary64 val fin cvt \<Longrightarrow> fin x \<Longrightarrow> fin y \<Longrightarrow> val y \<noteq> 0 \<Longrightarrow> \<bar>val x / val y\<bar> \<le> overflow_bound
     \<Longrightarrow> fin (x / y)
       \<and> \<bar>val (x / y) - val x / val y\<bar> \<le> unit_roundoff * \<bar>val x / val y\<bar> + half_min_subnormal"
  by (simp add: binary64_def)

lemma binary64_comm:
  fixes val :: "'a::{zero,plus,minus,times,inverse} \<Rightarrow> real" and x y :: 'a
  shows "binary64 val fin cvt \<Longrightarrow> x * y = y * x"
  unfolding binary64_def by blast

text \<open>The final \<^verbatim>\<open>result * dx\<close>.\<close>

lemma rounded_product:
  assumes m: "binary64 val fin cvt"
    and R: "fin R" and dx: "fin dx"
    and err: "\<bar>val R - S\<bar> \<le> (E - 1) * A" and SA: "\<bar>S\<bar> \<le> A"
    and E1: "1 \<le> E" and E2: "E \<le> 2"
    and B: "2 * (A * \<bar>val dx\<bar>) \<le> overflow_bound"
  shows "fin (R * dx)
       \<and> \<bar>val (R * dx) - S * val dx\<bar> \<le> (E * (1 + unit_roundoff) - 1) * (A * \<bar>val dx\<bar>) + half_min_subnormal"
proof -
  define u where "u = unit_roundoff"
  define D where "D = val dx"
  have u0: "0 \<le> u" unfolding u_def by (rule u_nonneg)
  have A0: "0 \<le> A" using SA by linarith
  have "\<bar>val R\<bar> \<le> \<bar>S\<bar> + \<bar>val R - S\<bar>" by linarith
  also have "\<dots> \<le> A + (E - 1) * A" using SA err by linarith
  also have "\<dots> = E * A" by (simp add: algebra_simps)
  finally have RA: "\<bar>val R\<bar> \<le> E * A" .
  have "\<bar>val R * D\<bar> = \<bar>val R\<bar> * \<bar>D\<bar>" by (rule abs_mult)
  also have "\<dots> \<le> (E * A) * \<bar>D\<bar>" using RA by (intro mult_right_mono) simp_all
  finally have RD: "\<bar>val R * D\<bar> \<le> E * (A * \<bar>D\<bar>)" by (simp add: mult.assoc)
  have AD0: "0 \<le> A * \<bar>D\<bar>" using A0 by simp
  have "E * (A * \<bar>D\<bar>) \<le> 2 * (A * \<bar>D\<bar>)" using E2 AD0 by (rule mult_right_mono)
  then have "\<bar>val R * val dx\<bar> \<le> overflow_bound" using RD B unfolding D_def by linarith
  then have st: "fin (R * dx)"
      "\<bar>val (R * dx) - val R * D\<bar> \<le> u * \<bar>val R * D\<bar> + half_min_subnormal"
    using binary64_mult[OF m R dx] unfolding D_def u_def by simp_all
  have "u * \<bar>val R * D\<bar> \<le> u * (E * (A * \<bar>D\<bar>))" using RD u0 by (rule mult_left_mono)
  then have t1: "\<bar>val (R * dx) - val R * D\<bar> \<le> u * (E * (A * \<bar>D\<bar>)) + half_min_subnormal"
    using st(2) by linarith
  have "\<bar>val R * D - S * D\<bar> = \<bar>val R - S\<bar> * \<bar>D\<bar>"
    by (simp add: abs_mult[symmetric] algebra_simps)
  also have "\<dots> \<le> ((E - 1) * A) * \<bar>D\<bar>" using err by (intro mult_right_mono) simp_all
  finally have t2: "\<bar>val R * D - S * D\<bar> \<le> (E - 1) * (A * \<bar>D\<bar>)" by (simp add: mult.assoc)
  have "\<bar>val (R * dx) - S * D\<bar> \<le> u * (E * (A * \<bar>D\<bar>)) + half_min_subnormal + (E - 1) * (A * \<bar>D\<bar>)"
    using t1 t2 by linarith
  also have "\<dots> = (E * (1 + u) - 1) * (A * \<bar>D\<bar>) + half_min_subnormal"
    by (simp add: algebra_simps)
  finally show ?thesis using st(1) unfolding D_def u_def by simp
qed


lemma two_level_result:
  fixes val :: "'a::{zero,plus,minus,times,inverse} \<Rightarrow> real" and g :: "nat \<Rightarrow> 'a"
  assumes m: "binary64 val fin cvt"
    and parts: "mset (concat (map F ts)) = mset [0..<n]"
    and len: "n + length ts \<le> 2 ^ 31"
    and dx: "fin dx"
    and g: "\<forall>i<n. fin (g i)"
    and B1: "4 * (\<Sum>i<n. \<bar>val (g i)\<bar>) \<le> overflow_bound"
    and B2: "2 * ((\<Sum>i<n. \<bar>val (g i)\<bar>) * \<bar>val dx\<bar>) \<le> overflow_bound"
  shows "fin (add_in_order 0 (\<lambda>t. add_in_order 0 g (F t)) ts * dx)
       \<and> \<bar>val (add_in_order 0 (\<lambda>t. add_in_order 0 g (F t)) ts * dx) - (\<Sum>i<n. val (g i)) * val dx\<bar>
           \<le> (\<Sum>i<n. \<bar>val (g i)\<bar>) * \<bar>val dx\<bar> / 4000000 + half_min_subnormal"
proof -
  define E where "E = (1 + unit_roundoff) ^ (n + length ts)"
  define A where "A = (\<Sum>i<n. \<bar>val (g i)\<bar>)"
  define R where "R = add_in_order 0 (\<lambda>t. add_in_order 0 g (F t)) ts"
  have E1: "1 \<le> E" unfolding E_def by (rule roundoff_power_ge_1)
  have "E * (1 + unit_roundoff) = (1 + unit_roundoff) ^ (n + length ts + 1)"
    unfolding E_def by simp
  also have "\<dots> \<le> 1 + 1 / 4000000"
    using len by (intro roundoff_power_bound) simp
  finally have Eu: "E * (1 + unit_roundoff) \<le> 1 + 1 / 4000000" .
  have "E \<le> (1 + unit_roundoff) ^ (n + length ts + 1)"
    unfolding E_def by (rule roundoff_power_mono) simp
  also have "\<dots> \<le> 1 + 1 / 4000000"
    using len by (intro roundoff_power_bound) simp
  finally have E2: "E \<le> 2" by simp
  have zero: "fin 0" "val 0 = 0" using binary64_zero[OF m] by simp_all
  have sm: "fin R \<and> \<bar>val R - (\<Sum>i<n. val (g i))\<bar> \<le> (E - 1) * A"
    unfolding R_def E_def A_def
    using zero parts g E2[unfolded E_def] B1
    by (intro two_level_sum binary64_add[OF m])
  have SA: "\<bar>\<Sum>i<n. val (g i)\<bar> \<le> A"
    unfolding A_def by (rule sum_abs)
  have A0: "0 \<le> A" using SA by linarith
  have pr: "fin (R * dx)
       \<and> \<bar>val (R * dx) - (\<Sum>i<n. val (g i)) * val dx\<bar>
           \<le> (E * (1 + unit_roundoff) - 1) * (A * \<bar>val dx\<bar>) + half_min_subnormal"
    using m _ dx _ SA E1 E2 B2[folded A_def]
    by (rule rounded_product) (use sm in simp_all)
  have "(E * (1 + unit_roundoff) - 1) * (A * \<bar>val dx\<bar>) \<le> (1 / 4000000) * (A * \<bar>val dx\<bar>)"
    using Eu A0 by (intro mult_right_mono) simp_all
  then show ?thesis
    using pr unfolding R_def A_def by simp
qed

lemma one_level_result:
  fixes val :: "'a::{zero,plus,minus,times,inverse} \<Rightarrow> real" and g :: "nat \<Rightarrow> 'a"
  assumes m: "binary64 val fin cvt"
    and len: "n \<le> 2 ^ 31"
    and dx: "fin dx"
    and g: "\<forall>i<n. fin (g i)"
    and B1: "4 * (\<Sum>i<n. \<bar>val (g i)\<bar>) \<le> overflow_bound"
    and B2: "2 * ((\<Sum>i<n. \<bar>val (g i)\<bar>) * \<bar>val dx\<bar>) \<le> overflow_bound"
  shows "fin (add_in_order 0 g [0..<n] * dx)
       \<and> \<bar>val (add_in_order 0 g [0..<n] * dx) - (\<Sum>i<n. val (g i)) * val dx\<bar>
           \<le> (\<Sum>i<n. \<bar>val (g i)\<bar>) * \<bar>val dx\<bar> / 4000000 + half_min_subnormal"
proof -
  define E where "E = (1 + unit_roundoff) ^ n"
  define A where "A = (\<Sum>i<n. \<bar>val (g i)\<bar>)"
  define R where "R = add_in_order 0 g [0..<n]"
  have E1: "1 \<le> E" unfolding E_def by (rule roundoff_power_ge_1)
  have "E * (1 + unit_roundoff) = (1 + unit_roundoff) ^ (n + 1)"
    unfolding E_def by simp
  also have "\<dots> \<le> 1 + 1 / 4000000"
    using len by (intro roundoff_power_bound) simp
  finally have Eu: "E * (1 + unit_roundoff) \<le> 1 + 1 / 4000000" .
  have "E \<le> (1 + unit_roundoff) ^ (n + 1)"
    unfolding E_def by (rule roundoff_power_mono) simp
  also have "\<dots> \<le> 1 + 1 / 4000000"
    using len by (intro roundoff_power_bound) simp
  finally have E2: "E \<le> 2" by simp
  have zero: "fin 0" "val 0 = 0" using binary64_zero[OF m] by simp_all
  have SA: "\<bar>\<Sum>i<n. val (g i)\<bar> \<le> A"
    unfolding A_def by (rule sum_abs)
  have A0: "0 \<le> A" using SA by linarith
  have sl: "(\<Sum>i\<leftarrow>[0..<n]. h i) = (\<Sum>i<n. h i)" for h :: "nat \<Rightarrow> real"
    by (simp add: interv_sum_list_conv_sum_set_nat atLeast0LessThan)
  have "2 * A \<le> overflow_bound"
    using B1 A0 unfolding A_def by linarith
  then have "2 * (\<bar>val (0::'a)\<bar> + (\<Sum>i\<leftarrow>[0..<n]. \<bar>val (g i)\<bar>)) \<le> overflow_bound"
    using zero(2) unfolding sl A_def by simp
  moreover have "\<forall>i \<in> set [0..<n]. fin (g i)" using g by simp
  moreover have "(1 + unit_roundoff) ^ length [0..<n] \<le> 2" using E2 unfolding E_def by simp
  ultimately have "fin (add_in_order 0 g [0..<n])
       \<and> \<bar>val (add_in_order 0 g [0..<n]) - (val (0::'a) + (\<Sum>i\<leftarrow>[0..<n]. val (g i)))\<bar>
           \<le> ((1 + unit_roundoff) ^ length [0..<n] - 1) * (\<bar>val (0::'a)\<bar> + (\<Sum>i\<leftarrow>[0..<n]. \<bar>val (g i)\<bar>))"
    using zero(1) by (intro seq_sum binary64_add[OF m])
  then have sm: "fin R \<and> \<bar>val R - (\<Sum>i<n. val (g i))\<bar> \<le> (E - 1) * A"
    unfolding sl R_def E_def A_def using zero(2) by simp
  have pr: "fin (R * dx)
       \<and> \<bar>val (R * dx) - (\<Sum>i<n. val (g i)) * val dx\<bar>
           \<le> (E * (1 + unit_roundoff) - 1) * (A * \<bar>val dx\<bar>) + half_min_subnormal"
    using m _ dx _ SA E1 E2 B2[folded A_def]
    by (rule rounded_product) (use sm in simp_all)
  have "(E * (1 + unit_roundoff) - 1) * (A * \<bar>val dx\<bar>) \<le> (1 / 4000000) * (A * \<bar>val dx\<bar>)"
    using Eu A0 by (intro mult_right_mono) simp_all
  then show ?thesis
    using pr unfolding R_def A_def by simp
qed


lemma private_shape: "foldl (\<lambda>res t. res + p t) r ts = add_in_order r p ts"
  by (simp add: add_in_order_def)

lemma slots_shape: "foldl (+) r (map p ts) = add_in_order r p ts"
  by (simp add: add_in_order_def foldl_map)

lemma sample_left:
  fixes val :: "'a::{zero,plus,minus,times,inverse} \<Rightarrow> real"
  assumes "binary64 val fin cvt"
  shows "cvt (int i) * ((b - a) / cvt (int steps)) + a = sample_point steps cvt a b i"
  unfolding sample_point_def step_width_def
  using binary64_comm[OF assms, of "cvt (int i)" "(b - a) / cvt (int steps)"] by simp

lemma sample_right:
  "(b - a) / cvt (int steps) * cvt (int i) + a = sample_point steps cvt a b i"
  by (simp add: sample_point_def step_width_def)

lemma close_to_two_level:
  fixes val :: "'a::{zero,plus,minus,times,inverse} \<Rightarrow> real"
  assumes eq: "mm = return \<lparr>threads = ths, samples = trs,
           ret = add_in_order 0 (\<lambda>t. add_in_order 0 (\<lambda>i. f (sample_point steps cvt a b i)) (F t)) ts
                 * step_width steps cvt a b\<rparr>"
    and m: "binary64 val fin cvt"
    and parts: "mset (concat (map F ts)) = mset [0..<steps]"
    and len: "steps + length ts \<le> 2 ^ 31"
    and dx: "fin (step_width steps cvt a b)"
    and g: "\<forall>i < steps. fin (f (sample_point steps cvt a b i))"
    and B1: "4 * (\<Sum>i < steps. \<bar>val (f (sample_point steps cvt a b i))\<bar>) \<le> overflow_bound"
    and B2: "2 * magnitude val steps cvt a b f \<le> overflow_bound"
  shows "close_to val fin mm (unrounded_sum val steps cvt a b f)
           (magnitude val steps cvt a b f / 4000000 + half_min_subnormal)"
  using two_level_result[OF m parts len dx g B1 B2[unfolded magnitude_def]]
  by (simp add: close_to_def eq return_def unrounded_sum_def magnitude_def)

lemma integrateCrit_rounded:
  fixes val :: "'a::{zero,plus,minus,times,inverse} \<Rightarrow> real"
  assumes m: "binary64 val fin cvt"
    and T: "0 < T" and steps: "0 < steps" and nowrap: "steps + T \<le> 2 ^ 31"
    and dx: "fin (step_width steps cvt a b)"
    and g: "\<forall>i < steps. fin (f (sample_point steps cvt a b i))"
    and B1: "4 * (\<Sum>i < steps. \<bar>val (f (sample_point steps cvt a b i))\<bar>) \<le> overflow_bound"
    and B2: "2 * magnitude val steps cvt a b f \<le> overflow_bound"
    and order: "team_order T order"
  shows "close_to val fin (integrateCrit steps cvt a b f T order)
           (unrounded_sum val steps cvt a b f)
           (magnitude val steps cvt a b f / 4000000 + half_min_subnormal)"
proof -
  have w32: "steps + T \<le> 2 ^ 32" using nowrap by (rule nowrap_weaken)
  have parts: "mset (concat (map (stride_list steps T) (order))) = mset [0..<steps]"
    using T order by (simp add: team_order_def mset_strides_order)
  have len: "steps + length (order) \<le> 2 ^ 31"
    using nowrap mset_eq_length[OF order[unfolded team_order_def]] by simp
  have "integrateCrit steps cvt a b f T order
        = return \<lparr>threads = [], samples = map (\<lambda>t. map int ((stride_list steps T) t)) (order),
           ret = add_in_order 0 (\<lambda>t. add_in_order 0 (\<lambda>i. f (sample_point steps cvt a b i)) ((stride_list steps T) t)) (order)
                 * step_width steps cvt a b\<rparr>"
    unfolding integrateCrit_eq[OF T w32]
    by (simp add: private_shape sample_left[OF m] step_width_def)
  then show ?thesis
    using m parts len dx g B1 B2 by (rule close_to_two_level)
qed

lemma integrateMutex_rounded:
  fixes val :: "'a::{zero,plus,minus,times,inverse} \<Rightarrow> real"
  assumes m: "binary64 val fin cvt"
    and T: "0 < T" and steps: "0 < steps" and nowrap: "steps + T \<le> 2 ^ 31"
    and dx: "fin (step_width steps cvt a b)"
    and g: "\<forall>i < steps. fin (f (sample_point steps cvt a b i))"
    and B1: "4 * (\<Sum>i < steps. \<bar>val (f (sample_point steps cvt a b i))\<bar>) \<le> overflow_bound"
    and B2: "2 * magnitude val steps cvt a b f \<le> overflow_bound"
    and order: "team_order T order"
  shows "close_to val fin (integrateMutex steps cvt a b f T order)
           (unrounded_sum val steps cvt a b f)
           (magnitude val steps cvt a b f / 4000000 + half_min_subnormal)"
proof -
  have w32: "steps + T \<le> 2 ^ 32" using nowrap by (rule nowrap_weaken)
  have parts: "mset (concat (map (stride_list steps T) (order))) = mset [0..<steps]"
    using T order by (simp add: team_order_def mset_strides_order)
  have len: "steps + length (order) \<le> 2 ^ 31"
    using nowrap mset_eq_length[OF order[unfolded team_order_def]] by simp
  have "integrateMutex steps cvt a b f T order
        = return \<lparr>threads = [0..<T], samples = map (\<lambda>t. map int ((stride_list steps T) t)) (order),
           ret = add_in_order 0 (\<lambda>t. add_in_order 0 (\<lambda>i. f (sample_point steps cvt a b i)) ((stride_list steps T) t)) (order)
                 * step_width steps cvt a b\<rparr>"
    unfolding integrateMutex_eq[OF T w32]
    by (simp add: private_shape sample_left[OF m] step_width_def)
  then show ?thesis
    using m parts len dx g B1 B2 by (rule close_to_two_level)
qed

lemma integrateAtomic_rounded:
  fixes val :: "'a::{zero,plus,minus,times,inverse} \<Rightarrow> real"
  assumes m: "binary64 val fin cvt"
    and T: "0 < T" and steps: "0 < steps" and nowrap: "steps + T \<le> 2 ^ 31"
    and dx: "fin (step_width steps cvt a b)"
    and g: "\<forall>i < steps. fin (f (sample_point steps cvt a b i))"
    and B1: "4 * (\<Sum>i < steps. \<bar>val (f (sample_point steps cvt a b i))\<bar>) \<le> overflow_bound"
    and B2: "2 * magnitude val steps cvt a b f \<le> overflow_bound"
    and order: "team_order T order"
  shows "close_to val fin (integrateAtomic steps cvt a b f T order)
           (unrounded_sum val steps cvt a b f)
           (magnitude val steps cvt a b f / 4000000 + half_min_subnormal)"
proof -
  have w32: "steps + T \<le> 2 ^ 32" using nowrap by (rule nowrap_weaken)
  have parts: "mset (concat (map (stride_list steps T) (order))) = mset [0..<steps]"
    using T order by (simp add: team_order_def mset_strides_order)
  have len: "steps + length (order) \<le> 2 ^ 31"
    using nowrap mset_eq_length[OF order[unfolded team_order_def]] by simp
  have "integrateAtomic steps cvt a b f T order
        = return \<lparr>threads = [1..<T], samples = map (\<lambda>t. map int ((stride_list steps T) t)) (order),
           ret = add_in_order 0 (\<lambda>t. add_in_order 0 (\<lambda>i. f (sample_point steps cvt a b i)) ((stride_list steps T) t)) (order)
                 * step_width steps cvt a b\<rparr>"
    unfolding integrateAtomic_eq[OF T w32]
    by (simp add: private_shape sample_left[OF m] step_width_def)
  then show ?thesis
    using m parts len dx g B1 B2 by (rule close_to_two_level)
qed

lemma integrateArr_rounded:
  fixes val :: "'a::{zero,plus,minus,times,inverse} \<Rightarrow> real"
  assumes m: "binary64 val fin cvt"
    and T: "0 < T" and steps: "0 < steps" and nowrap: "steps + T \<le> 2 ^ 31"
    and dx: "fin (step_width steps cvt a b)"
    and g: "\<forall>i < steps. fin (f (sample_point steps cvt a b i))"
    and B1: "4 * (\<Sum>i < steps. \<bar>val (f (sample_point steps cvt a b i))\<bar>) \<le> overflow_bound"
    and B2: "2 * magnitude val steps cvt a b f \<le> overflow_bound"
  shows "close_to val fin (integrateArr steps cvt a b f T True)
           (unrounded_sum val steps cvt a b f)
           (magnitude val steps cvt a b f / 4000000 + half_min_subnormal)"
proof -
  have w32: "steps + T \<le> 2 ^ 32" using nowrap by (rule nowrap_weaken)
  have parts: "mset (concat (map (stride_list steps T) ([0..<T]))) = mset [0..<steps]"
    using T by (rule mset_strides)
  have len: "steps + length ([0..<T]) \<le> 2 ^ 31"
    using nowrap by simp
  have "integrateArr steps cvt a b f T True
        = return \<lparr>threads = [], samples = map (\<lambda>t. map int ((stride_list steps T) t)) ([0..<T]),
           ret = add_in_order 0 (\<lambda>t. add_in_order 0 (\<lambda>i. f (sample_point steps cvt a b i)) ((stride_list steps T) t)) ([0..<T])
                 * step_width steps cvt a b\<rparr>"
    unfolding integrateArr_eq[OF T w32 steps]
    by (simp add: slots_shape sample_right step_width_def)
  then show ?thesis
    using m parts len dx g B1 B2 by (rule close_to_two_level)
qed

lemma integrateArrAlign_rounded:
  fixes val :: "'a::{zero,plus,minus,times,inverse} \<Rightarrow> real"
  assumes m: "binary64 val fin cvt"
    and T: "0 < T" and steps: "0 < steps" and nowrap: "steps + T \<le> 2 ^ 31"
    and dx: "fin (step_width steps cvt a b)"
    and g: "\<forall>i < steps. fin (f (sample_point steps cvt a b i))"
    and B1: "4 * (\<Sum>i < steps. \<bar>val (f (sample_point steps cvt a b i))\<bar>) \<le> overflow_bound"
    and B2: "2 * magnitude val steps cvt a b f \<le> overflow_bound"
  shows "close_to val fin (integrateArrAlign steps cvt a b f T True)
           (unrounded_sum val steps cvt a b f)
           (magnitude val steps cvt a b f / 4000000 + half_min_subnormal)"
proof -
  have w32: "steps + T \<le> 2 ^ 32" using nowrap by (rule nowrap_weaken)
  have parts: "mset (concat (map (stride_list steps T) ([0..<T]))) = mset [0..<steps]"
    using T by (rule mset_strides)
  have len: "steps + length ([0..<T]) \<le> 2 ^ 31"
    using nowrap by simp
  have "integrateArrAlign steps cvt a b f T True
        = return \<lparr>threads = [], samples = map (\<lambda>t. map int ((stride_list steps T) t)) ([0..<T]),
           ret = add_in_order 0 (\<lambda>t. add_in_order 0 (\<lambda>i. f (sample_point steps cvt a b i)) ((stride_list steps T) t)) ([0..<T])
                 * step_width steps cvt a b\<rparr>"
    unfolding integrateArrAlign_eq[OF T w32 steps]
    by (simp add: slots_shape sample_right step_width_def)
  then show ?thesis
    using m parts len dx g B1 B2 by (rule close_to_two_level)
qed

lemma integratePS_rounded:
  fixes val :: "'a::{zero,plus,minus,times,inverse} \<Rightarrow> real"
  assumes m: "binary64 val fin cvt"
    and T: "0 < T" and steps: "0 < steps" and nowrap: "steps + T \<le> 2 ^ 31"
    and dx: "fin (step_width steps cvt a b)"
    and g: "\<forall>i < steps. fin (f (sample_point steps cvt a b i))"
    and B1: "4 * (\<Sum>i < steps. \<bar>val (f (sample_point steps cvt a b i))\<bar>) \<le> overflow_bound"
    and B2: "2 * magnitude val steps cvt a b f \<le> overflow_bound"
  shows "close_to val fin (integratePS steps cvt a b f T)
           (unrounded_sum val steps cvt a b f)
           (magnitude val steps cvt a b f / 4000000 + half_min_subnormal)"
proof -
  have w32: "steps + T \<le> 2 ^ 32" using nowrap by (rule nowrap_weaken)
  have parts: "mset (concat (map (stride_list steps T) ([0..<T]))) = mset [0..<steps]"
    using T by (rule mset_strides)
  have len: "steps + length ([0..<T]) \<le> 2 ^ 31"
    using nowrap by simp
  have "integratePS steps cvt a b f T
        = return \<lparr>threads = [1..<T], samples = map (\<lambda>t. map int ((stride_list steps T) t)) ([0..<T]),
           ret = add_in_order 0 (\<lambda>t. add_in_order 0 (\<lambda>i. f (sample_point steps cvt a b i)) ((stride_list steps T) t)) ([0..<T])
                 * step_width steps cvt a b\<rparr>"
    unfolding integratePS_eq[OF T nowrap]
    by (simp add: slots_shape sample_right step_width_def)
  then show ?thesis
    using m parts len dx g B1 B2 by (rule close_to_two_level)
qed

lemma integrateReduction_rounded:
  fixes val :: "'a::{zero,plus,minus,times,inverse} \<Rightarrow> real"
  assumes m: "binary64 val fin cvt"
    and T: "0 < T" and steps: "0 < steps" and nowrap: "steps + T \<le> 2 ^ 31"
    and dx: "fin (step_width steps cvt a b)"
    and g: "\<forall>i < steps. fin (f (sample_point steps cvt a b i))"
    and B1: "4 * (\<Sum>i < steps. \<bar>val (f (sample_point steps cvt a b i))\<bar>) \<le> overflow_bound"
    and B2: "2 * magnitude val steps cvt a b f \<le> overflow_bound"
    and ws: "worksharing steps T sched rorder"
  shows "close_to val fin (integrateReduction steps cvt a b f sched rorder)
           (unrounded_sum val steps cvt a b f)
           (magnitude val steps cvt a b f / 4000000 + half_min_subnormal)"
proof -
  have w32: "steps + T \<le> 2 ^ 32" using nowrap by (rule nowrap_weaken)
  have parts: "mset (concat (map ((!) sched) (rorder))) = mset [0..<steps]"
    proof -
    have "mset (concat (map ((!) sched) rorder)) = mset (concat (map ((!) sched) [0..<length sched]))"
      using ws by (intro mset_concat_cong) (simp add: worksharing_def)
    then show ?thesis using ws by (simp add: worksharing_def map_nth)
  qed
  have len: "steps + length (rorder) \<le> 2 ^ 31"
    proof -
    have "mset rorder = mset [0..<T]" using ws by (simp add: worksharing_def)
    then have "length rorder = T" using mset_eq_length by fastforce
    then show ?thesis using nowrap by simp
  qed
  have "integrateReduction steps cvt a b f sched rorder
        = return \<lparr>threads = [], samples = map (\<lambda>t. map int (((!) sched) t)) (rorder),
           ret = add_in_order 0 (\<lambda>t. add_in_order 0 (\<lambda>i. f (sample_point steps cvt a b i)) (((!) sched) t)) (rorder)
                 * step_width steps cvt a b\<rparr>"
    unfolding integrateReduction_eq
    by (simp add: private_shape sample_right step_width_def)
  then show ?thesis
    using m parts len dx g B1 B2 by (rule close_to_two_level)
qed

lemma integrateDefault_rounded:
  fixes val :: "'a::{zero,plus,minus,times,inverse} \<Rightarrow> real"
  assumes m: "binary64 val fin cvt"
    and len: "steps \<le> 2 ^ 31"
    and dx: "fin (step_width steps cvt a b)"
    and g: "\<forall>i < steps. fin (f (sample_point steps cvt a b i))"
    and B1: "4 * (\<Sum>i < steps. \<bar>val (f (sample_point steps cvt a b i))\<bar>) \<le> overflow_bound"
    and B2: "2 * magnitude val steps cvt a b f \<le> overflow_bound"
  shows "close_to val fin (integrateDefault steps cvt a b f)
           (unrounded_sum val steps cvt a b f)
           (magnitude val steps cvt a b f / 4000000 + half_min_subnormal)"
proof -
  have s32: "steps < 2 ^ 32" using len by simp
  have "integrateDefault steps cvt a b f
        = return \<lparr>threads = [], samples = [map int [0..<steps]],
           ret = add_in_order 0 (\<lambda>i. f (sample_point steps cvt a b i)) [0..<steps]
                 * step_width steps cvt a b\<rparr>"
    unfolding integrateDefault_eq[OF s32]
    by (simp add: sample_left[OF m] step_width_def)
  then show ?thesis
    using one_level_result[OF m len dx g B1 B2[unfolded magnitude_def]]
    by (simp add: close_to_def return_def unrounded_sum_def magnitude_def)
qed

subsection \<open>Integrands and bounds in general\<close>

lemma u_val: "unit_roundoff = 1 / 9007199254740992"
  by (simp add: unit_roundoff_def)

lemma eta_nonneg: "0 \<le> half_min_subnormal"
  by (simp add: half_min_subnormal_def)

lemma eta_small: "half_min_subnormal \<le> 1 / 10 ^ 30"
proof -
  have "(10::real) ^ 30 \<le> 16 ^ 30" by (intro power_mono) simp_all
  also have "\<dots> = 2 ^ 120" by (simp add: power_mult[symmetric, of 2 4 30])
  also have "\<dots> \<le> 2 ^ 1075" by (intro power_increasing) simp_all
  finally have "(10::real) ^ 30 \<le> 2 ^ 1075" .
  then show ?thesis
    unfolding half_min_subnormal_def by (intro divide_left_mono) simp_all
qed

lemma eta_small_num: "half_min_subnormal \<le> 1 / 1000000000000000000000000000000"
  using eta_small by simp

lemma overflow_bound_ge_4: "4 \<le> overflow_bound"
proof -
  have "(4::real) = 2 ^ 2" by simp
  also have "\<dots> \<le> 2 ^ 1023" by (intro power_increasing) simp_all
  finally show ?thesis by (simp add: overflow_bound_def)
qed

lemma overflow_bound_ge_num: "1000000000 \<le> overflow_bound"
proof -
  have "(1000000000::real) \<le> 2 ^ 30" by simp
  also have "\<dots> \<le> 2 ^ 1023" by (intro power_increasing) simp_all
  finally show ?thesis by (simp add: overflow_bound_def)
qed

lemma binary64_exact: "binary64 (\<lambda>x::real. x) (\<lambda>x. True) real_of_int"
  unfolding binary64_def
  by (simp add: u_nonneg eta_nonneg mult.commute)

lemma close_to_shift:
  assumes "close_to val fin m c tol" and "\<bar>c - c'\<bar> + tol \<le> tol'"
  shows "close_to val fin m c' tol'"
proof -
  obtain r where r: "m = Some (Inr r)" "fin (ret r)" "\<bar>val (ret r) - c\<bar> \<le> tol"
    using assms(1) unfolding close_to_def by blast
  have "\<bar>val (ret r) - c'\<bar> \<le> tol'" using r(3) assms(2) by linarith
  then show ?thesis using r(1,2) unfolding close_to_def by blast
qed





subsection \<open>The samples of \<open>x\<^sup>2\<close> on \<open>[-1, 1]\<close>\<close>

lemma sum_shifted_squares:
  fixes c d :: real
  shows "(\<Sum>i<n. (c + real i * d) * (c + real i * d))
         = real n * c * c + c * d * real n * (real n - 1)
           + d * d * (real n - 1) * real n * (2 * real n - 1) / 6"
proof (induction n)
  case 0
  show ?case by simp
next
  case (Suc n)
  show ?case
    unfolding sum.lessThan_Suc Suc.IH by (simp add: field_simps)
qed

lemma riemann_sum_square:
  assumes "0 < n"
  shows "riemann_sum n (-1) 1 f_sq = 2 / 3 + 4 / (3 * (real n * real n))"
proof -
  let ?N = "real n"
  have N: "?N \<noteq> 0" using assms by simp
  have "riemann_sum n (-1) 1 f_sq
        = (\<Sum>i<n. (-1 + real i * (2 / ?N)) * (-1 + real i * (2 / ?N))) * (2 / ?N)"
    by (simp add: riemann_sum_def f_sq_def)
  also have "\<dots> = (?N * (-1) * (-1) + (-1) * (2 / ?N) * ?N * (?N - 1)
           + (2 / ?N) * (2 / ?N) * (?N - 1) * ?N * (2 * ?N - 1) / 6) * (2 / ?N)"
    by (simp only: sum_shifted_squares)
  also have "\<dots> = 2 / 3 + 4 / (3 * (?N * ?N))"
    using N by (simp add: field_simps)
  finally show ?thesis .
qed

lemma square_step_width:
  fixes val :: "'a::{zero,plus,minus,times,inverse} \<Rightarrow> real"
  assumes m: "binary64 val fin cvt"
  shows "fin (step_width STEPS cvt (cvt (-1)) (cvt 1))
       \<and> \<bar>val (step_width STEPS cvt (cvt (-1)) (cvt 1)) - 2 / 10 ^ 8\<bar> \<le> 1 / 10 ^ 23"
proof -
  define w where "w = cvt 1 - cvt (-1)"
  define cN where "cN = cvt (int STEPS)"
  have a: "fin (cvt (-1))" "val (cvt (-1)) = -1"
    using binary64_cvt[OF m, of "-1"] by simp_all
  have b: "fin (cvt 1)" "val (cvt 1) = 1"
    using binary64_cvt[OF m, of 1] by simp_all
  have cN: "fin cN" "val cN = 100000000"
    using binary64_cvt[OF m, of "int STEPS"] unfolding cN_def by (simp_all add: STEPS_def)
  have "\<bar>val (cvt 1) - val (cvt (-1))\<bar> \<le> overflow_bound"
    using overflow_bound_ge_4 by (simp add: a b)
  then have w: "fin w" "\<bar>val w - 2\<bar> \<le> unit_roundoff * 2"
    using binary64_sub[OF m b(1) a(1)] unfolding w_def by (simp_all add: a b)
  have w3: "\<bar>val w\<bar> \<le> 3" using w(2) unfolding u_val by linarith
  define q where "q = val w / 100000000"
  have q: "\<bar>q\<bar> \<le> 3 / 100000000" "\<bar>q - 2 / 100000000\<bar> \<le> unit_roundoff * 2 / 100000000"
    using w3 w(2) unfolding q_def u_val by linarith+
  have "\<bar>val w / val cN\<bar> \<le> overflow_bound"
    using q(1) overflow_bound_ge_4 unfolding q_def cN(2) by linarith
  then have dx: "fin (w / cN)" "\<bar>val (w / cN) - q\<bar> \<le> unit_roundoff * \<bar>q\<bar> + half_min_subnormal"
    using binary64_div[OF m w(1) cN(1)] unfolding q_def cN(2) by simp_all
  have "\<bar>val (w / cN) - 2 / 100000000\<bar> \<le> 1 / 100000000000000000000000"
    using dx(2) q eta_small_num unfolding u_val by linarith
  then show ?thesis
    using dx(1) unfolding step_width_def w_def cN_def by simp
qed


lemma square_sample:
  fixes val :: "'a::{zero,plus,minus,times,inverse} \<Rightarrow> real"
  assumes m: "binary64 val fin cvt" and i: "i < STEPS"
  shows "fin (f_sq (sample_point STEPS cvt (cvt (-1)) (cvt 1) i))
       \<and> \<bar>val (f_sq (sample_point STEPS cvt (cvt (-1)) (cvt 1) i))
            - f_sq (-1 + real i * (2 / real STEPS))\<bar> \<le> 1 / 10 ^ 14"
proof -
  define dx where "dx = step_width STEPS cvt (cvt (-1)) (cvt 1)"
  define D where "D = val dx"
  define ci where "ci = cvt (int i)"
  define t where "t = dx * ci"
  define x where "x = t + cvt (-1)"
  define xv where "xv = val x"
  define c :: real where "c = 2 / 100000000"
  define X where "X = c * real i - 1"
  have a: "fin (cvt (-1))" "val (cvt (-1)) = -1"
    using binary64_cvt[OF m, of "-1"] by simp_all
  have dx: "fin dx" "\<bar>D - c\<bar> \<le> 1 / 100000000000000000000000"
    using square_step_width[OF m] unfolding dx_def D_def c_def by simp_all
  have ri: "0 \<le> real i" "real i \<le> 100000000"
    using i by (simp_all add: STEPS_def)
  have "\<bar>int i\<bar> \<le> 2 ^ 53" using i by (simp add: STEPS_def)
  then have ci: "fin ci" "val ci = real i"
    using binary64_cvt[OF m, of "int i"] unfolding ci_def by simp_all
  define p where "p = D * real i"
  have "p - c * real i = (D - c) * real i"
    unfolding p_def by (simp add: algebra_simps)
  then have "\<bar>p - c * real i\<bar> = \<bar>D - c\<bar> * real i"
    by (simp add: abs_mult)
  also have "\<dots> \<le> (1 / 100000000000000000000000) * 100000000"
    using dx(2) ri by (intro mult_mono) simp_all
  finally have p1: "\<bar>p - c * real i\<bar> \<le> 1 / 1000000000000000" by simp
  have ci2: "0 \<le> c * real i" "c * real i \<le> 2"
    using ri unfolding c_def by simp_all
  have p3: "\<bar>p\<bar> \<le> 3" using p1 ci2 by linarith
  then have "\<bar>val dx * val ci\<bar> \<le> overflow_bound"
    using overflow_bound_ge_4 unfolding p_def D_def ci(2) by linarith
  then have t: "fin t" "\<bar>val t - p\<bar> \<le> unit_roundoff * \<bar>p\<bar> + half_min_subnormal"
    using binary64_mult[OF m dx(1) ci(1)] unfolding t_def p_def D_def ci(2) by simp_all
  have t1: "\<bar>val t - c * real i\<bar> \<le> 2 / 1000000000000000"
    using t(2) p1 p3 eta_small_num unfolding u_val by linarith
  have "\<bar>val t + val (cvt (-1))\<bar> \<le> overflow_bound"
    using t1 ci2 overflow_bound_ge_4 unfolding a(2) by linarith
  then have x: "fin x" "\<bar>xv - (val t - 1)\<bar> \<le> unit_roundoff * \<bar>val t - 1\<bar>"
    using binary64_add[OF m t(1) a(1)] unfolding x_def xv_def a(2) by simp_all
  have X1: "\<bar>X\<bar> \<le> 1" using ci2 unfolding X_def by linarith
  have "\<bar>val t - 1\<bar> \<le> 2" using t1 ci2 by linarith
  then have "unit_roundoff * \<bar>val t - 1\<bar> \<le> 1 / 1000000000000000"
    unfolding u_val by simp
  then have "\<bar>xv - (val t - 1)\<bar> \<le> 1 / 1000000000000000"
    using x(2) by linarith
  then have x1: "\<bar>xv - X\<bar> \<le> 3 / 1000000000000000"
    using t1 unfolding X_def by linarith
  have x2: "\<bar>xv\<bar> \<le> 2" using x1 X1 by linarith
  have "\<bar>xv * xv\<bar> = \<bar>xv\<bar> * \<bar>xv\<bar>" by (rule abs_mult)
  also have "\<dots> \<le> 2 * 2" using x2 by (intro mult_mono) simp_all
  finally have xx: "\<bar>xv * xv\<bar> \<le> 4" by simp
  then have "\<bar>val x * val x\<bar> \<le> overflow_bound"
    using overflow_bound_ge_4 unfolding xv_def by linarith
  then have y: "fin (x * x)" "\<bar>val (x * x) - xv * xv\<bar> \<le> unit_roundoff * \<bar>xv * xv\<bar> + half_min_subnormal"
    using binary64_mult[OF m x(1) x(1)] unfolding xv_def by simp_all
  have "xv * xv - X * X = (xv - X) * (xv + X)"
    by (simp add: algebra_simps)
  then have "\<bar>xv * xv - X * X\<bar> = \<bar>xv - X\<bar> * \<bar>xv + X\<bar>"
    by (simp only: abs_mult)
  also have "\<dots> \<le> (3 / 1000000000000000) * 3"
    using x1 x2 X1 by (intro mult_mono) (simp, linarith, simp_all)
  finally have d: "\<bar>xv * xv - X * X\<bar> \<le> 9 / 1000000000000000" by simp
  have "unit_roundoff * \<bar>xv * xv\<bar> \<le> 1 / 2000000000000000"
    using xx unfolding u_val by simp
  then have "unit_roundoff * \<bar>xv * xv\<bar> + half_min_subnormal \<le> 1 / 1000000000000000"
    using eta_small_num by linarith
  then have "\<bar>val (x * x) - xv * xv\<bar> \<le> 1 / 1000000000000000"
    using y(2) by linarith
  then have "\<bar>val (x * x) - X * X\<bar> \<le> 1 / 100000000000000"
    using d by linarith
  moreover have "X = -1 + real i * (2 / real STEPS)"
    unfolding X_def c_def by (simp add: STEPS_def)
  moreover have "f_sq (sample_point STEPS cvt (cvt (-1)) (cvt 1) i) = x * x"
    unfolding f_sq_def x_def t_def ci_def dx_def sample_point_def ..
  ultimately show ?thesis
    using y(1) by (simp add: f_sq_def)
qed

lemma square_totals:
  fixes val :: "'a::{zero,plus,minus,times,inverse} \<Rightarrow> real"
  assumes m: "binary64 val fin cvt"
  shows "(\<Sum>i < STEPS. \<bar>val (f_sq (sample_point STEPS cvt (cvt (-1)) (cvt 1) i))\<bar>) \<le> 100000001"
    and "magnitude val STEPS cvt (cvt (-1)) (cvt 1) f_sq \<le> 201 / 100"
    and "\<bar>unrounded_sum val STEPS cvt (cvt (-1)) (cvt 1) f_sq - 2 / 3\<bar> \<le> 1 / 1000000000000"
proof -
  define Y where "Y i = val (f_sq (sample_point STEPS cvt (cvt (-1)) (cvt 1) i))" for i
  define Z :: "nat \<Rightarrow> real" where "Z i = f_sq (-1 + real i * (2 / real STEPS))" for i
  define D where "D = val (step_width STEPS cvt (cvt (-1)) (cvt 1))"
  define c :: real where "c = 2 / 100000000"
  have N: "real STEPS = 100000000" by (simp add: STEPS_def)
  have D: "\<bar>D - c\<bar> \<le> 1 / 100000000000000000000000"
    using square_step_width[OF m] unfolding D_def c_def by simp
  have D3: "\<bar>D\<bar> \<le> 3 / 100000000" using D unfolding c_def by linarith
  have YZ: "\<bar>Y i - Z i\<bar> \<le> 1 / 100000000000000" if "i < STEPS" for i
    using square_sample[OF m that] unfolding Y_def Z_def by simp
  have Z01: "0 \<le> Z i \<and> Z i \<le> 1" if "i < STEPS" for i
  proof -
    have "0 \<le> real i" "real i \<le> 100000000" using that by (simp_all add: STEPS_def)
    then have "\<bar>-1 + real i * (2 / real STEPS)\<bar> \<le> 1" unfolding N by simp
    then have "\<bar>-1 + real i * (2 / real STEPS)\<bar> * \<bar>-1 + real i * (2 / real STEPS)\<bar> \<le> 1 * 1"
      by (intro mult_mono) simp_all
    then show ?thesis unfolding Z_def f_sq_def by (simp add: abs_mult[symmetric])
  qed
  have "(\<Sum>i < STEPS. \<bar>Y i\<bar>) \<le> (\<Sum>i < STEPS. 1 + 1 / 100000000000000)"
  proof (rule sum_mono)
    fix i assume "i \<in> {..<STEPS}"
    then have i: "i < STEPS" by simp
    show "\<bar>Y i\<bar> \<le> 1 + 1 / 100000000000000" using YZ[OF i] Z01[OF i] by linarith
  qed
  also have "\<dots> = real STEPS * (1 + 1 / 100000000000000)" by simp
  also have "\<dots> \<le> 100000001" unfolding N by simp
  finally have A: "(\<Sum>i < STEPS. \<bar>Y i\<bar>) \<le> 100000001" .
  have A0: "0 \<le> (\<Sum>i < STEPS. \<bar>Y i\<bar>)" by (intro sum_nonneg) simp
  have "(\<Sum>i < STEPS. \<bar>Y i\<bar>) * \<bar>D\<bar> \<le> 100000001 * (3 / 100000000)"
    using A D3 A0 by (intro mult_mono) simp_all
  then have M0: "(\<Sum>i < STEPS. \<bar>Y i\<bar>) * \<bar>D\<bar> \<le> 4" by simp
  have c0: "0 \<le> c" unfolding c_def by simp
  have "\<bar>D\<bar> \<le> c + 1 / 100000000000000000000000" using D c0 by linarith
  then have "(\<Sum>i < STEPS. \<bar>Y i\<bar>) * \<bar>D\<bar> \<le> 100000001 * (c + 1 / 100000000000000000000000)"
    using A A0 by (intro mult_mono) simp_all
  also have "\<dots> \<le> 201 / 100" unfolding c_def by simp
  finally have M: "(\<Sum>i < STEPS. \<bar>Y i\<bar>) * \<bar>D\<bar> \<le> 201 / 100" .
  have "\<bar>(\<Sum>i < STEPS. Y i) - (\<Sum>i < STEPS. Z i)\<bar> = \<bar>\<Sum>i < STEPS. Y i - Z i\<bar>"
    by (simp add: sum_subtractf)
  also have "\<dots> \<le> (\<Sum>i < STEPS. \<bar>Y i - Z i\<bar>)" by (rule sum_abs)
  also have "\<dots> \<le> (\<Sum>i < STEPS. 1 / 100000000000000)"
    by (rule sum_mono) (use YZ in simp)
  also have "\<dots> = 1 / 1000000" by (simp add: N)
  finally have SZ: "\<bar>(\<Sum>i < STEPS. Y i) - (\<Sum>i < STEPS. Z i)\<bar> \<le> 1 / 1000000" .
  have pos: "0 < STEPS" by (simp add: STEPS_def)
  have "(\<Sum>i < STEPS. Z i) * c = riemann_sum STEPS (-1) 1 f_sq"
    unfolding riemann_sum_def Z_def c_def N by simp
  also have "\<dots> = 2 / 3 + 4 / (3 * (real STEPS * real STEPS))"
    by (rule riemann_sum_square[OF pos])
  finally have Zc: "(\<Sum>i < STEPS. Z i) * c = 2 / 3 + 4 / 30000000000000000"
    unfolding N by simp
  have Z0: "0 \<le> (\<Sum>i < STEPS. Z i)" by (intro sum_nonneg) (use Z01 in simp)
  have "(\<Sum>i < STEPS. Z i) \<le> (\<Sum>i < STEPS. 1)"
    by (rule sum_mono) (use Z01 in simp)
  then have ZN: "(\<Sum>i < STEPS. Z i) \<le> 100000000" by (simp add: N)
  define S where "S = (\<Sum>i < STEPS. Y i)"
  define S' where "S' = (\<Sum>i < STEPS. Z i)"
  define p1 where "p1 = (S - S') * D"
  define p2 where "p2 = S' * (D - c)"
  have "S * D - S' * c = p1 + p2" unfolding p1_def p2_def by (simp add: algebra_simps)
  moreover have "\<bar>p1\<bar> \<le> (1 / 1000000) * (3 / 100000000)"
    unfolding p1_def abs_mult using SZ D3 unfolding S_def S'_def by (intro mult_mono) simp_all
  then have "\<bar>p1\<bar> \<le> 3 / 100000000000000" by simp
  moreover have "\<bar>p2\<bar> \<le> 100000000 * (1 / 100000000000000000000000)"
    unfolding p2_def abs_mult using ZN Z0 D unfolding S'_def by (intro mult_mono) simp_all
  then have "\<bar>p2\<bar> \<le> 1 / 1000000000000000" by simp
  ultimately have "\<bar>S * D - S' * c\<bar> \<le> 1 / 2000000000000" by linarith
  then have U: "\<bar>S * D - 2 / 3\<bar> \<le> 1 / 1000000000000"
    using Zc unfolding S'_def by linarith
  show "(\<Sum>i < STEPS. \<bar>val (f_sq (sample_point STEPS cvt (cvt (-1)) (cvt 1) i))\<bar>) \<le> 100000001"
    using A unfolding Y_def .
  show "magnitude val STEPS cvt (cvt (-1)) (cvt 1) f_sq \<le> 201 / 100"
    using M unfolding magnitude_def Y_def D_def .
  show "\<bar>unrounded_sum val STEPS cvt (cvt (-1)) (cvt 1) f_sq - 2 / 3\<bar> \<le> 1 / 1000000000000"
    using U unfolding unrounded_sum_def S_def Y_def D_def .
qed

section \<open>The claims\<close>

subsection \<open>The strided partition\<close>

lemma foldl_snoc: "foldl (\<lambda>tr j. tr @ [k j]) acc xs = acc @ map k xs"
  by (induction xs arbitrary: acc) simp_all

lemma worker_indices_eq:
  assumes "0 < T" "steps + T \<le> 2 ^ 32"
  shows "worker_indices steps T t = return (stride_list steps T t)"
proof -
  have "strided_loop steps T (\<lambda>i tr. return (tr @ [i])) t []
        = return (foldl (\<lambda>tr j. tr @ [j]) [] (stride_list steps T t)) \<and> True"
    by (rule strided_loop_unroll[where P = "\<lambda>_. True"]) (use assms in simp_all)
  then show ?thesis
    using foldl_snoc[of "\<lambda>j::nat. j" "[]" "stride_list steps T t"] by (simp add: worker_indices_def)
qed

lemma stride_list_size_bounds:
  assumes "t < T"
  shows "N div T \<le> length (stride_list N T t)" "length (stride_list N T t) \<le> (N + T - 1) div T"
proof -
  have T: "0 < T" using assms by simp
  have len: "length (stride_list N T t) = (N - t + T - 1) div T"
    using T by (rule length_stride_list)
  have "N \<le> N - t + T - 1" using assms by simp
  then show "N div T \<le> length (stride_list N T t)"
    unfolding len by (rule div_le_mono)
  have "N - t + T - 1 \<le> N + T - 1" by simp
  then show "length (stride_list N T t) \<le> (N + T - 1) div T"
    unfolding len by (rule div_le_mono)
qed

lemma ceil_le_floor_Suc:
  fixes N T :: nat
  assumes "0 < T"
  shows "(N + T - 1) div T \<le> N div T + 1"
proof -
  have "N + T - 1 \<le> N + T" by simp
  then have "(N + T - 1) div T \<le> (N + T) div T" by (rule div_le_mono)
  then show ?thesis using assms by simp
qed

text \<open>
  Claim C1, as the loop allows it.  For every worker count \<open>T \<ge> 1\<close> and sample count
  \<open>N \<ge> 1\<close> with \<open>N + T \<le> 2 ^ 32\<close> (so that the 32-bit counter of
  \<^verbatim>\<open>for (unsigned i = t; i < N; i += T)\<close> cannot wrap around), every worker \<open>t < T\<close>
  leaves its loop, having visited a list \<open>idx t\<close> of indices without repetition; the
  indices of worker \<open>t\<close> are those \<open>i < N\<close> with \<open>i mod T = t\<close>; the sets of two
  different workers are disjoint; their union is \<open>{0, \<dots>, N - 1}\<close>; each worker has
  \<open>\<lfloor>N / T\<rfloor>\<close> or \<open>\<lceil>N / T\<rceil>\<close> indices, and the two numbers differ by at most one.
\<close>

theorem strided_partition:
  assumes "1 \<le> T" and "1 \<le> N" and "N + T \<le> 2 ^ 32"
  shows "\<exists>idx.
      (\<forall>t<T. worker_indices N T t = Some (Inr (idx t))
            \<and> distinct (idx t)
            \<and> set (idx t) = {i. i < N \<and> i mod T = t}
            \<and> (length (idx t) = N div T \<or> length (idx t) = (N + T - 1) div T))
    \<and> (\<forall>t<T. \<forall>u<T. t \<noteq> u \<longrightarrow> set (idx t) \<inter> set (idx u) = {})
    \<and> (\<Union>t<T. set (idx t)) = {0..<N}
    \<and> (N + T - 1) div T \<le> N div T + 1"
proof -
  let ?idx = "\<lambda>t. stride_list N T t"
  have T: "0 < T" using assms by simp
  have sets: "set (?idx t) = {i. i < N \<and> i mod T = t}" if "t < T" for t
    using that by (rule set_stride_list_worker)
  have ceil: "(N + T - 1) div T \<le> N div T + 1" using T by (rule ceil_le_floor_Suc)
  have len: "length (?idx t) = N div T \<or> length (?idx t) = (N + T - 1) div T" if "t < T" for t
    using stride_list_size_bounds[OF that, of N] ceil by linarith
  have a: "\<forall>t<T. worker_indices N T t = Some (Inr (?idx t))
            \<and> distinct (?idx t)
            \<and> set (?idx t) = {i. i < N \<and> i mod T = t}
            \<and> (length (?idx t) = N div T \<or> length (?idx t) = (N + T - 1) div T)"
    using worker_indices_eq[OF T assms(3)] distinct_stride_list sets len
    by (simp add: return_def)
  have b: "\<forall>t<T. \<forall>u<T. t \<noteq> u \<longrightarrow> set (?idx t) \<inter> set (?idx u) = {}"
    using sets by auto
  have c: "(\<Union>t<T. set (?idx t)) = {0..<N}"
  proof
    show "(\<Union>t<T. set (?idx t)) \<subseteq> {0..<N}" using sets by auto
    show "{0..<N} \<subseteq> (\<Union>t<T. set (?idx t))"
    proof
      fix i assume "i \<in> {0..<N}"
      then have "i < N" by simp
      moreover have "i mod T < T" using T by simp
      ultimately have "i \<in> set (?idx (i mod T))" using sets by simp
      then show "i \<in> (\<Union>t<T. set (?idx t))" using \<open>i mod T < T\<close> by blast
    qed
  qed
  show ?thesis using a b c ceil by blast
qed

text \<open>The theorem at \<open>N = 10\<close> and \<open>T = 3\<close>.\<close>

theorem strided_partition_witness:
  "\<exists>idx.
      (\<forall>t<3. worker_indices 10 3 t = Some (Inr (idx t))
            \<and> distinct (idx t)
            \<and> set (idx t) = {i. i < 10 \<and> i mod 3 = t}
            \<and> (length (idx t) = 10 div 3 \<or> length (idx t) = (10 + 3 - 1) div 3))
    \<and> (\<forall>t<3. \<forall>u<3. t \<noteq> u \<longrightarrow> set (idx t) \<inter> set (idx u) = {})
    \<and> (\<Union>t<3. set (idx t)) = {0..<10}
    \<and> (10 + 3 - 1) div 3 \<le> 10 div 3 + (1::nat)"
  using strided_partition[of 3 10] by simp

text \<open>
  The claim as stated, for every \<open>T \<ge> 1\<close>, fails where the counter wraps: at
  \<open>N = 100000000\<close> (the program's \<^verbatim>\<open>STEPS\<close>) and \<open>T = 4294967295\<close> worker \<open>1\<close> visits
  \<open>1\<close>, then \<open>1 + T = 2 ^ 32\<close> wraps to \<open>0\<close>, which worker \<open>0\<close> visits too.
\<close>

theorem strided_partition_wraps:
  "worker_indices 100000000 4294967295 0 = Some (Inr [0])
   \<and> worker_indices 100000000 4294967295 1 = Some (Inr [1, 0])"
  by (simp add: worker_indices_def strided_loop_def u32_def return_def for_loop.simps)

subsection \<open>The Riemann sum\<close>



subsection \<open>Agreement of the strategies\<close>

lemma upt_split: "m \<le> n \<Longrightarrow> [0..<m] @ [m..<n] = [0..<n]"
  using upt_add_eq_append[of 0 m "n - m"] by simp





subsection \<open>No workers\<close>

lemma zero_stride_diverges:
  fixes cvt :: "int \<Rightarrow> 'a::{zero,plus,times}"
  assumes "0 < steps"
  shows "strided_loop steps 0 (accumulate cvt f a dx) 0 s = None"
  unfolding strided_loop_def
proof (rule for_loop_diverges[where I = "\<lambda>i. i = 0"])
  show "(0::nat) = 0" by simp
  show "i < steps \<and> (\<exists>s'. accumulate cvt f a dx i s = return s') \<and> u32 (i + 0) = 0"
    if "i = 0" for i and s :: "int list \<times> 'a"
    using that assms by (cases s) (auto simp: accumulate_def u32_def)
qed

lemma integrateMutex_zero:
  fixes cvt :: "int \<Rightarrow> 'a::{zero,plus,minus,times,inverse}"
  shows "integrateMutex steps cvt a b f 0 []
         = Some (Inr \<lparr>threads = [], samples = [], ret = 0 * ((b - a) / cvt (int steps))\<rparr>)"
  by (simp add: integrateMutex_def Let_def return_def)

lemma integrateAtomic_zero:
  fixes cvt :: "int \<Rightarrow> 'a::{zero,plus,minus,times,inverse}"
  assumes "0 < steps"
  shows "integrateAtomic steps cvt a b f 0 [0] = None"
  by (simp add: integrateAtomic_def Let_def private_worker_def zero_stride_diverges[OF assms])

lemma integratePS_zero:
  fixes cvt :: "int \<Rightarrow> 'a::{zero,plus,minus,times,inverse}"
  assumes "0 < steps"
  shows "integratePS steps cvt a b f 0 = Some (Inl OutOfBounds)"
proof -
  have "strided_loop_int steps 0 (vec_add cvt f a dx 0) (int 0) ([], []) = Some (Inl OutOfBounds)"
    for dx
    unfolding strided_loop_int_def
    by (rule for_loop_fault) (use assms in \<open>simp_all add: vec_add_def add_slot_def\<close>)
  then show ?thesis
    by (simp add: integratePS_def Let_def caller_and_threads_def)
qed

text \<open>
  Claim C4 as the code has it.  No integrator looks at \<open>T\<close> before it uses it, so a worker
  count of zero is not rejected.  \<^verbatim>\<open>integrateMutex\<close> starts no thread and returns
  \<open>0 * dx\<close>, the sum over no sample.  In \<^verbatim>\<open>integratePS\<close> the caller runs
  \<^verbatim>\<open>threadProc(0)\<close>, whose first step writes \<^verbatim>\<open>vec[0]\<close> of a vector without elements.
  In \<^verbatim>\<open>integrateAtomic\<close> the caller runs \<^verbatim>\<open>fun(0)\<close>, whose loop has the stride zero and
  never ends.
\<close>

theorem zero_workers_not_rejected:
  fixes cvt :: "int \<Rightarrow> 'a::{zero,plus,minus,times,inverse}"
  shows "integrateMutex STEPS cvt a b f 0 []
           = Some (Inr \<lparr>threads = [], samples = [], ret = 0 * ((b - a) / cvt (int STEPS))\<rparr>)
       \<and> integratePS STEPS cvt a b f 0 = Some (Inl OutOfBounds)
       \<and> integrateAtomic STEPS cvt a b f 0 [0] = None"
proof -
  have "0 < STEPS" by (simp add: STEPS_def)
  then show ?thesis
    by (simp add: integrateMutex_zero integratePS_zero integrateAtomic_zero)
qed

text \<open>
  The claim as stated fails at \<open>T = 0\<close>: the program's own call of \<^verbatim>\<open>integrateMutex\<close>
  (\<open>x\<^sup>2\<close> on \<open>[-1, 1]\<close>) returns the number \<open>0\<close>.
\<close>

theorem zero_workers_mutex_returns_zero:
  "integrateMutex STEPS real_of_int (-1) 1 f_sq 0 []
     = Some (Inr \<lparr>threads = [], samples = [], ret = 0\<rparr>)"
  by (simp add: integrateMutex_zero)

subsection \<open>A failed allocation\<close>

lemma team_Cons: "0 < T \<Longrightarrow> [0..<T] = 0 # [1..<T]"
  by (simp add: upt_conv_Cons)

lemma null_worker:
  fixes cvt :: "int \<Rightarrow> 'a::{plus,times}"
  assumes "0 < steps"
  shows "strided_loop steps T (accum_add cvt f a dx 0) 0 ([], None) = Some (Inl NullDeref)"
  unfolding strided_loop_def
  by (rule for_loop_fault) (use assms in \<open>simp_all add: accum_add_def\<close>)

lemma integrateArr_null:
  fixes cvt :: "int \<Rightarrow> 'a::{zero,plus,minus,times,inverse}"
  assumes "0 < T" and "0 < steps"
  shows "integrateArr steps cvt a b f T False = Some (Inl NullDeref)"
  by (simp add: integrateArr_def Let_def team_Cons[OF assms(1)] null_worker[OF assms(2)])

lemma integrateArrAlign_null:
  fixes cvt :: "int \<Rightarrow> 'a::{zero,plus,minus,times,inverse}"
  assumes "0 < T"
  shows "integrateArrAlign steps cvt a b f T False = Some (Inl NullDeref)"
  using assms by (simp add: integrateArrAlign_def Let_def)

text \<open>
  Claim C5 as the code has it.  Neither \<^verbatim>\<open>integrateArr\<close> nor \<^verbatim>\<open>integrateArrAlign\<close> looks
  at the pointer the allocation returns.  When the allocation fails, with \<open>T \<ge> 1\<close>
  workers and \<open>steps \<ge> 1\<close> samples, the run goes on to the null pointer: in
  \<^verbatim>\<open>integrateArr\<close> worker \<open>0\<close> executes \<^verbatim>\<open>accum[0] += f(\<dots>)\<close> on it, in
  \<^verbatim>\<open>integrateArrAlign\<close> the \<^verbatim>\<open>memset\<close> writes to it.  The run ends there, in undefined
  behaviour, and not in an error the program raises; no number is returned.
\<close>

theorem failed_allocation_dereferenced:
  fixes cvt :: "int \<Rightarrow> 'a::{zero,plus,minus,times,inverse}"
  assumes "1 \<le> T" and "1 \<le> steps"
  shows "integrateArr steps cvt a b f T False = Some (Inl NullDeref)
       \<and> integrateArrAlign steps cvt a b f T False = Some (Inl NullDeref)"
  using assms by (simp add: integrateArr_null integrateArrAlign_null)

text \<open>The theorem at the program's own call with four workers.\<close>

theorem failed_allocation_dereferenced_witness:
  "integrateArr STEPS real_of_int (-1) 1 f_sq 4 False = Some (Inl NullDeref)
   \<and> integrateArrAlign STEPS real_of_int (-1) 1 f_sq 4 False = Some (Inl NullDeref)"
proof -
  have h1: "(1::nat) \<le> 4" by simp
  have h2: "1 \<le> STEPS" by (simp add: STEPS_def)
  show ?thesis by (rule failed_allocation_dereferenced[OF h1 h2])
qed

text \<open>
  The claim as stated fails when \<^verbatim>\<open>calloc\<close> returns the null pointer in a run with one
  worker: the worker's first step is \<^verbatim>\<open>accum[0] += f(dx * 0 + a)\<close> with \<^verbatim>\<open>accum\<close> null, an
  accumulation into memory that was never allocated.
\<close>

theorem failed_allocation_worker_writes_null:
  "strided_loop STEPS 1 (accum_add real_of_int f_sq (-1) ((1 - (-1)) / real_of_int (int STEPS)) 0) 0
      ([], None) = Some (Inl NullDeref)
   \<and> integrateArr STEPS real_of_int (-1) 1 f_sq 1 False = Some (Inl NullDeref)"
proof -
  have "0 < STEPS" by (simp add: STEPS_def)
  then show ?thesis
    by (simp add: null_worker integrateArr_null)
qed

subsection \<open>One worker\<close>

lemma zero_plus_add_in_order:
  fixes g :: "nat \<Rightarrow> 'a::{zero,plus}"
  assumes z0: "(0::'a) + 0 = 0" and zc: "\<forall>x y::'a. 0 + x = x \<longrightarrow> 0 + (x + y) = x + y"
  shows "0 + add_in_order 0 g xs = add_in_order 0 g xs"
proof (induction xs rule: rev_induct)
  case Nil
  show ?case using z0 by simp
next
  case (snoc x xs)
  then show ?case using zc by simp
qed

text \<open>
  Claim C10.  \<^verbatim>\<open>double\<close> is any type with the operations of the program, and only
  three facts of its arithmetic are used, all of which hold for IEEE 754 numbers in the
  default rounding mode: multiplication is commutative (\<^verbatim>\<open>dx * i\<close> in
  \<^verbatim>\<open>integratePS\<close>, \<^verbatim>\<open>i * dx\<close> elsewhere); \<open>0 + 0 = 0\<close>; and a sum \<open>x + y\<close> is unchanged
  by adding it to \<open>0\<close> when its first operand \<open>x\<close> is (only \<open>-0\<close> is changed by
  \<open>0 +\<close>, and \<open>x + y\<close> is \<open>-0\<close> only when \<open>x\<close> and \<open>y\<close> are).  Then, with one worker,
  \<^verbatim>\<open>integratePS\<close> and \<^verbatim>\<open>integrateAtomic\<close> start no thread and \<^verbatim>\<open>integrateMutex\<close>
  starts one; the worker calls the integrand at the indices \<open>0, 1, 2, \<dots>, STEPS - 1\<close> in
  this order, as \<^verbatim>\<open>integrateDefault\<close> does; and all four return the same value.
\<close>

theorem single_worker_identical:
  fixes cvt :: "int \<Rightarrow> 'a::{zero,plus,minus,times,inverse}"
  assumes comm: "\<forall>x y::'a. x * y = y * x"
    and z0: "(0::'a) + 0 = 0"
    and zc: "\<forall>x y::'a. 0 + x = x \<longrightarrow> 0 + (x + y) = x + y"
  shows "\<exists>v.
      integrateDefault STEPS cvt a b f
        = Some (Inr \<lparr>threads = [], samples = [map int [0..<STEPS]], ret = v\<rparr>)
    \<and> integratePS STEPS cvt a b f 1
        = Some (Inr \<lparr>threads = [], samples = [map int [0..<STEPS]], ret = v\<rparr>)
    \<and> integrateAtomic STEPS cvt a b f 1 [0]
        = Some (Inr \<lparr>threads = [], samples = [map int [0..<STEPS]], ret = v\<rparr>)
    \<and> integrateMutex STEPS cvt a b f 1 [0]
        = Some (Inr \<lparr>threads = [0], samples = [map int [0..<STEPS]], ret = v\<rparr>)"
proof -
  let ?dx = "(b - a) / cvt (int STEPS)"
  let ?g = "\<lambda>i. f (cvt (int i) * ?dx + a)"
  let ?S = "add_in_order 0 ?g [0..<STEPS]"
  have T: "0 < (1::nat)" by simp
  have s32: "STEPS < 2 ^ 32" and w32: "STEPS + 1 \<le> 2 ^ 32" and w31: "STEPS + 1 \<le> 2 ^ 31"
    by (simp_all add: STEPS_def)
  have g': "(\<lambda>i. f (?dx * cvt (int i) + a)) = ?g"
    using comm by simp
  have zero: "0 + ?S = ?S"
    using z0 zc by (rule zero_plus_add_in_order)
  have "integrateDefault STEPS cvt a b f
        = Some (Inr \<lparr>threads = [], samples = [map int [0..<STEPS]], ret = ?S * ?dx\<rparr>)"
    by (simp add: integrateDefault_eq[OF s32] return_def)
  moreover have "integratePS STEPS cvt a b f 1
        = Some (Inr \<lparr>threads = [], samples = [map int [0..<STEPS]], ret = ?S * ?dx\<rparr>)"
    using integratePS_eq[OF T w31, of cvt a b f]
    by (simp add: return_def stride_list_one g' zero)
  moreover have "integrateAtomic STEPS cvt a b f 1 [0]
        = Some (Inr \<lparr>threads = [], samples = [map int [0..<STEPS]], ret = ?S * ?dx\<rparr>)"
    using integrateAtomic_eq[OF T w32, of cvt a b f "[0]"]
    by (simp add: return_def stride_list_one zero)
  moreover have "integrateMutex STEPS cvt a b f 1 [0]
        = Some (Inr \<lparr>threads = [0], samples = [map int [0..<STEPS]], ret = ?S * ?dx\<rparr>)"
    using integrateMutex_eq[OF T w32, of cvt a b f "[0]"]
    by (simp add: return_def stride_list_one zero)
  ultimately show ?thesis by blast
qed

text \<open>The theorem at the program's own call, in exact arithmetic.\<close>

theorem single_worker_identical_witness:
  "\<exists>v::real.
      integrateDefault STEPS real_of_int (-1) 1 f_sq
        = Some (Inr \<lparr>threads = [], samples = [map int [0..<STEPS]], ret = v\<rparr>)
    \<and> integratePS STEPS real_of_int (-1) 1 f_sq 1
        = Some (Inr \<lparr>threads = [], samples = [map int [0..<STEPS]], ret = v\<rparr>)
    \<and> integrateAtomic STEPS real_of_int (-1) 1 f_sq 1 [0]
        = Some (Inr \<lparr>threads = [], samples = [map int [0..<STEPS]], ret = v\<rparr>)
    \<and> integrateMutex STEPS real_of_int (-1) 1 f_sq 1 [0]
        = Some (Inr \<lparr>threads = [0], samples = [map int [0..<STEPS]], ret = v\<rparr>)"
proof -
  have h1: "\<forall>x y::real. x * y = y * x" by (simp add: mult.commute)
  have h2: "(0::real) + 0 = 0" by simp
  have h3: "\<forall>x y::real. 0 + x = x \<longrightarrow> 0 + (x + y) = x + y" by simp
  show ?thesis by (rule single_worker_identical[OF h1 h2 h3])
qed

subsection \<open>The sweep of the driver\<close>

text \<open>The time measured in the \<open>T\<close>-th run of a sweep that starts at clock reading \<open>k\<close>.\<close>

definition elapsed :: "(nat \<Rightarrow> real) \<Rightarrow> nat \<Rightarrow> nat \<Rightarrow> real" where
  "elapsed clock k T = clock (k + 2 * T - 1) - clock (k + 2 * T - 2)"

lemma sweep_step_eq:
  "sweep_step clock I T1 (rows, st) T
     = (rows @ [\<lparr>col_result = I T, col_time = clock (ticks st + 1) - clock (ticks st),
                  col_acceleration = fdiv T1 (clock (ticks st + 1) - clock (ticks st))\<rparr>],
        st\<lparr>num_threads := T, ticks := ticks st + 2\<rparr>)"
  by (simp add: sweep_step_def runExperiment_def set_num_threads_def Let_def)

lemma sweep_rows:
  assumes m: "2 \<le> m" and k: "ticks st = k + 2 * (m - 1)"
  shows "fst (foldl (sweep_step clock I T1) (rows, st) [m..<m + d])
           = rows @ map (\<lambda>T. \<lparr>col_result = I T, col_time = elapsed clock k T,
                                  col_acceleration = fdiv T1 (elapsed clock k T)\<rparr>) [m..<m + d]
         \<and> ticks (snd (foldl (sweep_step clock I T1) (rows, st) [m..<m + d])) = k + 2 * (m + d - 1)"
proof (induction d)
  case 0
  then show ?case using k by simp
next
  case (Suc d)
  let ?row = "\<lambda>T. \<lparr>col_result = I T, col_time = elapsed clock k T,
                     col_acceleration = fdiv T1 (elapsed clock k T)\<rparr>"
  obtain rs s where p: "foldl (sweep_step clock I T1) (rows, st) [m..<m + d] = (rs, s)"
    by (cases "foldl (sweep_step clock I T1) (rows, st) [m..<m + d]")
  have rs: "rs = rows @ map ?row [m..<m + d]" and t: "ticks s = k + 2 * (m + d - 1)"
    using Suc p by simp_all
  have "k + 2 * (m + d) - 1 = ticks s + 1" and "k + 2 * (m + d) - 2 = ticks s"
    using t m by simp_all
  then have e: "clock (ticks s + 1) - clock (ticks s) = elapsed clock k (m + d)"
    by (simp add: elapsed_def)
  have t': "ticks s + 2 = k + 2 * (m + Suc d - 1)"
    using t m by simp
  have "foldl (sweep_step clock I T1) (rows, st) [m..<m + Suc d]
        = sweep_step clock I T1 (rs, s) (m + d)"
    using p by simp
  also have "\<dots> = (rs @ [?row (m + d)], s\<lparr>num_threads := m + d, ticks := ticks s + 2\<rparr>)"
    unfolding sweep_step_eq e by (rule refl)
  finally have "foldl (sweep_step clock I T1) (rows, st) [m..<m + Suc d]
        = (rs @ [?row (m + d)], s\<lparr>num_threads := m + d, ticks := ticks s + 2\<rparr>)" .
  then show ?case
    using rs t' by simp
qed

text \<open>
  Claim C6.  On a machine of \<open>P \<ge> 1\<close> processors the driver prints \<open>P\<close> lines.  The first
  is the run with one thread, timed between the first two readings of the clock; line
  \<open>T\<close> is the run with \<open>T\<close> threads, and its last column is the time of the first run
  divided by the time of run \<open>T\<close>.  When the first run takes a time other than zero, the
  last column of the first line is exactly \<open>1\<close>.
\<close>

theorem speedup_relative_to_first_run:
  assumes "1 \<le> P"
  shows "length (fst (showExperimentResults clock I P st)) = P
       \<and> (\<forall>T \<in> {1..P}. fst (showExperimentResults clock I P st) ! (T - 1)
             = \<lparr>col_result = I T, col_time = elapsed clock (ticks st) T,
                col_acceleration = fdiv (elapsed clock (ticks st) 1) (elapsed clock (ticks st) T)\<rparr>)
       \<and> (elapsed clock (ticks st) 1 \<noteq> 0
            \<longrightarrow> col_acceleration (fst (showExperimentResults clock I P st) ! 0) = Some 1)"
proof -
  let ?k = "ticks st"
  let ?T1 = "elapsed clock ?k 1"
  let ?row = "\<lambda>T. \<lparr>col_result = I T, col_time = elapsed clock ?k T,
                     col_acceleration = fdiv ?T1 (elapsed clock ?k T)\<rparr>"
  let ?st1 = "st\<lparr>num_threads := 1, ticks := ?k + 2\<rparr>"
  have first: "runExperiment clock I (set_num_threads 1 st)
               = (\<lparr>result = I 1, time = ?T1\<rparr>, ?st1)"
    by (simp add: runExperiment_def set_num_threads_def Let_def elapsed_def)
  have sw: "showExperimentResults clock I P st
            = foldl (sweep_step clock I ?T1) ([?row 1], ?st1) [2..<Suc P]"
    unfolding showExperimentResults_def first by (simp add: Let_def del: upt_Suc)
  have P: "Suc P = 2 + (P - 1)" using assms by simp
  have tk: "ticks ?st1 = ?k + 2 * (2 - 1)" by simp
  have "fst (foldl (sweep_step clock I ?T1) ([?row 1], ?st1) [2..<2 + (P - 1)])
        = [?row 1] @ map ?row [2..<2 + (P - 1)]"
    using sweep_rows[OF _ tk, of clock I ?T1 "[?row 1]" "P - 1"] by simp
  then have "fst (showExperimentResults clock I P st) = ?row 1 # map ?row [2..<Suc P]"
    unfolding sw P by simp
  also have "\<dots> = map ?row (1 # [2..<Suc P])"
    by simp
  also have "1 # [2..<Suc P] = [1..<Suc P]"
  proof -
    have "[1..<Suc P] = 1 # [Suc 1..<Suc P]"
      by (rule upt_conv_Cons) (use assms in simp)
    moreover have "Suc 1 = 2" by simp
    ultimately show ?thesis by (simp only:)
  qed
  finally have rows: "fst (showExperimentResults clock I P st) = map ?row [1..<Suc P]" .
  have a: "length (fst (showExperimentResults clock I P st)) = P"
    by (simp add: rows)
  have b: "\<forall>T \<in> {1..P}. fst (showExperimentResults clock I P st) ! (T - 1) = ?row T"
  proof
    fix T assume "T \<in> {1..P}"
    then have T: "1 \<le> T" "T - 1 < Suc P - 1" by auto
    then have "[1..<Suc P] ! (T - 1) = 1 + (T - 1)"
      by (simp only: nth_upt)
    then have "[1..<Suc P] ! (T - 1) = T" using T(1) by simp
    then show "fst (showExperimentResults clock I P st) ! (T - 1) = ?row T"
      unfolding rows using T(2) by (simp del: upt_Suc)
  qed
  have "1 \<in> {1..P}" using assms by simp
  with b have "fst (showExperimentResults clock I P st) ! (1 - 1) = ?row 1"
    by (rule bspec)
  then have c: "?T1 \<noteq> 0 \<longrightarrow> col_acceleration (fst (showExperimentResults clock I P st) ! 0) = Some 1"
    by (simp add: fdiv_def)
  show ?thesis using a b c by blast
qed

text \<open>
  The theorem on a machine of three processors, with a clock that shows \<open>0, 1, 4, 9, \<dots>\<close>
  and an integrator that returns \<open>2 / 3\<close>: the first line shows the acceleration \<open>1\<close>, the
  third \<open>1 / 9\<close>.
\<close>

theorem speedup_relative_to_first_run_witness:
  "length (fst (showExperimentResults (\<lambda>k. real (k * k)) (\<lambda>T. 2 / 3) 3
             \<lparr>num_threads = 8, ticks = 0\<rparr>)) = 3
   \<and> col_acceleration (fst (showExperimentResults (\<lambda>k. real (k * k)) (\<lambda>T. 2 / 3) 3
             \<lparr>num_threads = 8, ticks = 0\<rparr>) ! 0) = Some 1
   \<and> col_acceleration (fst (showExperimentResults (\<lambda>k. real (k * k)) (\<lambda>T. 2 / 3) 3
             \<lparr>num_threads = 8, ticks = 0\<rparr>) ! 2) = Some (1 / 9)"
proof -
  let ?rows = "fst (showExperimentResults (\<lambda>k. real (k * k)) (\<lambda>T. 2 / 3) 3
                 \<lparr>num_threads = 8, ticks = 0\<rparr>)"
  have h: "(1::nat) \<le> 3" by simp
  note th = speedup_relative_to_first_run[OF h, of "\<lambda>k. real (k * k)" "\<lambda>T. 2 / 3"
      "\<lparr>num_threads = 8, ticks = 0\<rparr>"]
  have e1: "elapsed (\<lambda>k. real (k * k)) (ticks \<lparr>num_threads = 8, ticks = 0\<rparr>) 1 = 1"
    and e3: "elapsed (\<lambda>k. real (k * k)) (ticks \<lparr>num_threads = 8, ticks = 0\<rparr>) 3 = 9"
    by (simp_all add: elapsed_def)
  have len: "length ?rows = 3"
    using th by (rule conjunct1)
  have "3 \<in> {1..3::nat}" by simp
  with th[THEN conjunct2, THEN conjunct1]
  have "?rows ! (3 - 1)
        = \<lparr>col_result = 2 / 3,
           col_time = elapsed (\<lambda>k. real (k * k)) (ticks \<lparr>num_threads = 8, ticks = 0\<rparr>) 3,
           col_acceleration =
             fdiv (elapsed (\<lambda>k. real (k * k)) (ticks \<lparr>num_threads = 8, ticks = 0\<rparr>) 1)
                  (elapsed (\<lambda>k. real (k * k)) (ticks \<lparr>num_threads = 8, ticks = 0\<rparr>) 3)\<rparr>"
    by (rule bspec)
  then have r3: "col_acceleration (?rows ! 2) = Some (1 / 9)"
    unfolding e1 e3 by (simp add: fdiv_def)
  have r1: "col_acceleration (?rows ! 0) = Some 1"
    using th[THEN conjunct2, THEN conjunct2] unfolding e1 by simp
  show ?thesis using len r1 r3 by (intro conjI)
qed

subsection \<open>The jump-ahead generator\<close>

lemma getB_overflow:
  assumes "1 \<le> sz"
  shows "getB sz a = Some (Inl OutOfBounds)"
proof -
  have inner: "counting_loop 1 (\<lambda>j acc. and_then (array_read acc j) (\<lambda>x. array_write acc 1 (x * a)))
                 [1::u64] = Some (Inl OutOfBounds)"
    unfolding counting_loop_def
    by (rule for_loop_fault) (simp_all add: array_read_def array_write_def)
  have "for_loop (\<lambda>i. i \<le> sz) (\<lambda>i. u32 (i + 1)) (\<lambda>i (acc, res).
            and_then (counting_loop i (\<lambda>j acc.
                        and_then (array_read acc j) (\<lambda>x.
                        array_write acc i (x * a))) acc) (\<lambda>acc.
            and_then (array_read acc i) (\<lambda>x.
            return (acc, res + x))))
          1 ([1::u64], 1::u64) = Some (Inl OutOfBounds)"
    by (rule for_loop_fault) (use assms inner in simp_all)
  then show ?thesis
    by (simp add: getB_def Let_def array_write_def)
qed

lemma getA_two: "getA 2 a = return (a * a)"
  by (simp add: getA_def for_loop.simps u32_def return_def)

text \<open>
  Claim C9 says that \<^verbatim>\<open>getB(k, a)\<close> is \<open>a\<^sup>k + \<dots> + a + 1\<close> and that the parallel generator
  fills \<open>V\<close> as the sequential one does, for every worker count.  In the code
  \<^verbatim>\<open>getB\<close> allocates its table with \<^verbatim>\<open>new uint64_t(size)\<close>, one element, and for every
  \<open>k \<ge> 1\<close> writes \<^verbatim>\<open>acc[1]\<close> past its end.  \<^verbatim>\<open>randomize_arr_fs\<close> calls
  \<^verbatim>\<open>getB(T - 1, a)\<close> before any worker starts: with two workers the call runs into that
  write, whatever the array and its length are.
\<close>

theorem randomize_fs_two_workers_overflow:
  "getB 1 lcg_a = Some (Inl OutOfBounds)
   \<and> randomize_arr_fs V n 2 = Some (Inl OutOfBounds)"
proof -
  have b: "getB 1 lcg_a = Some (Inl OutOfBounds)"
    by (rule getB_overflow) simp
  have "u32 (2 + (2 ^ 32 - 1)) = 1" by (simp add: u32_def)
  then show ?thesis
    using b by (simp add: randomize_arr_fs_def getA_two)
qed

subsection \<open>The scenario of the specification\<close>

text \<open>
  Claim C8.  For every type of doubles that satisfies the binary64 model, at the
  program's own call (the integrand \<open>x * x\<close>, the bounds \<open>-1\<close> and \<open>1\<close> converted from
  \<^verbatim>\<open>int\<close>, \<^verbatim>\<open>STEPS\<close> \<open>= 100000000\<close> samples), with any number \<open>T \<ge> 1\<close> of workers such that
  \<open>STEPS + T \<le> 2 ^ 31\<close>, whatever the order in which the workers reach the shared
  accumulator and whatever the distribution of the iterations of the \<^verbatim>\<open>parallel for\<close>:
  \<^verbatim>\<open>integrateDefault\<close> and each of the seven strategies returns a finite double, and
  the number it stands for differs from \<open>2/3\<close> by at most \<open>10\<^sup>-\<^sup>6\<close>.  The roundings counted
  are those of the step width, of every sample point, of every square, of every one of
  the \<open>STEPS\<close> additions and of the additions that combine the workers' partial sums,
  and of the final multiplication.
\<close>

theorem square_integral_within_tolerance:
  fixes val :: "'a::{zero,plus,minus,times,inverse} \<Rightarrow> real"
  assumes "binary64 val fin cvt" and "1 \<le> T" and "STEPS + T \<le> 2 ^ 31"
    and "team_order T order" and "worksharing STEPS T sched rorder"
  shows "close_to val fin (integrateDefault STEPS cvt (cvt (-1)) (cvt 1) f_sq) (2 / 3) (1 / 10 ^ 6)
       \<and> strategies_close_to val fin STEPS cvt (cvt (-1)) (cvt 1) f_sq T order sched rorder
           (2 / 3) (1 / 10 ^ 6)"
proof -
  note m = assms(1)
  have T: "0 < T" using assms(2) by simp
  have steps: "0 < STEPS" and len: "STEPS \<le> 2 ^ 31" by (simp_all add: STEPS_def)
  have dx: "fin (step_width STEPS cvt (cvt (-1)) (cvt 1))"
    using square_step_width[OF m] by simp
  have g: "\<forall>i < STEPS. fin (f_sq (sample_point STEPS cvt (cvt (-1)) (cvt 1) i))"
    using square_sample[OF m] by simp
  have B1: "4 * (\<Sum>i < STEPS. \<bar>val (f_sq (sample_point STEPS cvt (cvt (-1)) (cvt 1) i))\<bar>) \<le> overflow_bound"
    using square_totals(1)[OF m] overflow_bound_ge_num by linarith
  have B2: "2 * magnitude val STEPS cvt (cvt (-1)) (cvt 1) f_sq \<le> overflow_bound"
    using square_totals(2)[OF m] overflow_bound_ge_num by linarith
  have tol: "\<bar>unrounded_sum val STEPS cvt (cvt (-1)) (cvt 1) f_sq - 2 / 3\<bar>
             + (magnitude val STEPS cvt (cvt (-1)) (cvt 1) f_sq / 4000000 + half_min_subnormal)
             \<le> 1 / 10 ^ 6"
    using square_totals(2,3)[OF m] eta_small_num by simp
  show ?thesis
    unfolding strategies_close_to_def
    by (intro conjI close_to_shift[OF _ tol]
        integrateDefault_rounded[OF m len dx g B1 B2]
        integrateCrit_rounded[OF m T steps assms(3) dx g B1 B2 assms(4)]
        integrateMutex_rounded[OF m T steps assms(3) dx g B1 B2 assms(4)]
        integrateArr_rounded[OF m T steps assms(3) dx g B1 B2]
        integrateArrAlign_rounded[OF m T steps assms(3) dx g B1 B2]
        integrateReduction_rounded[OF m T steps assms(3) dx g B1 B2 assms(5)]
        integratePS_rounded[OF m T steps assms(3) dx g B1 B2]
        integrateAtomic_rounded[OF m T steps assms(3) dx g B1 B2 assms(4)])
qed

text \<open>
  The theorem in exact arithmetic, which satisfies the model with no rounding error at
  all, with two workers: worker \<open>1\<close> reaches the accumulator first, and the runtime hands
  the first half of the iterations to thread \<open>0\<close>.
\<close>

theorem square_integral_within_tolerance_witness:
  "close_to (\<lambda>x. x) (\<lambda>x. True)
     (integrateDefault STEPS real_of_int (real_of_int (-1)) (real_of_int 1) f_sq) (2 / 3) (1 / 10 ^ 6)
 \<and> strategies_close_to (\<lambda>x. x) (\<lambda>x. True) STEPS real_of_int (real_of_int (-1)) (real_of_int 1) f_sq
     2 [1, 0] [[0..<50000000], [50000000..<STEPS]] [1, 0] (2 / 3) (1 / 10 ^ 6)"
proof -
  have two: "[0..<2] = [0, Suc 0]"
    by (simp add: upt_rec)
  have h2: "(1::nat) \<le> 2" by simp
  have h3: "STEPS + 2 \<le> 2 ^ 31" by (simp add: STEPS_def)
  have h4: "team_order 2 [1, 0]"
    by (simp add: team_order_def two)
  have "(50000000::nat) \<le> STEPS" by (simp add: STEPS_def)
  then have "[0..<50000000] @ [50000000..<STEPS] = [0..<STEPS]"
    by (rule upt_split)
  then have h5: "worksharing STEPS 2 [[0..<50000000], [50000000..<STEPS]] [1, 0]"
    by (simp add: worksharing_def two del: upt_rec_numeral)
  show ?thesis
    by (rule square_integral_within_tolerance[OF binary64_exact h2 h3 h4 h5])
qed

section \<open>Further properties\<close>

subsection \<open>The value for \<open>x\<^sup>2\<close> on \<open>[-1, 1]\<close>\<close>

text \<open>
  In exact arithmetic the program's own call, \<open>x\<^sup>2\<close> on \<open>[-1, 1]\<close> with \<^verbatim>\<open>STEPS\<close> samples,
  returns \<open>2/3 + 4 / (3 STEPS\<^sup>2)\<close>, which is within \<open>10\<^sup>-\<^sup>6\<close> of \<open>2/3\<close>: the error of the
  left-endpoint rule.  The rounding errors of the \<^verbatim>\<open>double\<close> additions are not part of
  this statement.
\<close>

theorem square_integral_exact_value:
  "returns (integrateDefault STEPS real_of_int (-1) 1 f_sq) (2 / 3 + 4 / (3 * (real STEPS * real STEPS)))
   \<and> \<bar>2 / 3 + 4 / (3 * (real STEPS * real STEPS)) - 2 / 3\<bar> < 1 / 10 ^ 6"
proof -
  have s32: "STEPS < 2 ^ 32" and pos: "0 < STEPS" by (simp_all add: STEPS_def)
  have "returns (integrateDefault STEPS real_of_int (-1) 1 f_sq) (riemann_sum STEPS (-1) 1 f_sq)"
    using integrateDefault_exact[OF s32] by (rule evaluates_riemann_returns)
  then have "returns (integrateDefault STEPS real_of_int (-1) 1 f_sq)
               (2 / 3 + 4 / (3 * (real STEPS * real STEPS)))"
    by (simp only: riemann_sum_square[OF pos])
  moreover have "\<bar>2 / 3 + 4 / (3 * (real STEPS * real STEPS)) - 2 / 3\<bar> < 1 / 10 ^ 6"
    by (simp add: STEPS_def)
  ultimately show ?thesis by (rule conjI)
qed

subsection \<open>The generators\<close>

lemma lcg_closed_form:
  "lcg (Suc i) = lcg_a ^ Suc i * SEED + lcg_b * (\<Sum>k\<le>i. lcg_a ^ k)"
proof (induction i)
  case 0
  show ?case by simp
next
  case (Suc i)
  have "lcg (Suc (Suc i)) = lcg_a * lcg (Suc i) + lcg_b" by simp
  also have "\<dots> = lcg_a * (lcg_a ^ Suc i * SEED + lcg_b * (\<Sum>k\<le>i. lcg_a ^ k)) + lcg_b"
    by (simp only: Suc.IH)
  also have "\<dots> = lcg_a ^ Suc (Suc i) * SEED + lcg_b * (lcg_a * (\<Sum>k\<le>i. lcg_a ^ k) + 1)"
    by (simp add: algebra_simps)
  also have "lcg_a * (\<Sum>k\<le>i. lcg_a ^ k) + 1 = (\<Sum>k\<le>Suc i. lcg_a ^ k)"
  proof -
    have "(\<Sum>k\<le>Suc i. lcg_a ^ k) = lcg_a ^ 0 + (\<Sum>k\<le>i. lcg_a ^ Suc k)"
      by (rule sum.atMost_Suc_shift)
    also have "\<dots> = 1 + lcg_a * (\<Sum>k\<le>i. lcg_a ^ k)"
      by (simp add: sum_distrib_left)
    finally show ?thesis by simp
  qed
  finally show ?case .
qed

lemma length_filled [simp]: "length (filled V k) = length V"
  unfolding filled_def by (rule slots_length[where F = "\<lambda>t _. in_range (lcg (Suc t))"])

lemma filled_nth:
  assumes "k \<le> length V" and "i < length V"
  shows "filled V k ! i = (if i < k then in_range (lcg (Suc i)) else V ! i)"
  unfolding filled_def
  using slots_filled_nth[OF assms, where F = "\<lambda>t _. in_range (lcg (Suc t))"] by simp

lemma filled_Suc: "filled V (Suc k) = (filled V k)[k := in_range (lcg (Suc k))]"
  by (simp add: filled_def)

lemma total_Suc: "total (Suc k) = total k + ucast (in_range (lcg (Suc k)))"
  by (simp add: total_def)

lemma single_fold:
  "foldl (\<lambda>s i. case s of (V, prev, sum64) \<Rightarrow>
            (V[i := in_range (lcg_a * prev + lcg_b)], lcg_a * prev + lcg_b,
             sum64 + ucast (in_range (lcg_a * prev + lcg_b))))
     (V, SEED, 0) [0..<k]
   = (filled V k, lcg k, total k)"
proof (induction k)
  case 0
  show ?case by (simp add: filled_def total_def)
next
  case (Suc k)
  then show ?case by (simp add: filled_Suc total_Suc)
qed

lemma fs_fold:
  "foldl (\<lambda>s i. case s of (V, prev) \<Rightarrow>
            (V[i := in_range (lcg_a * prev + lcg_b)], lcg_a * prev + lcg_b))
     (V, SEED) [0..<k]
   = (filled V k, lcg k)"
proof (induction k)
  case 0
  show ?case by (simp add: filled_def)
next
  case (Suc k)
  then show ?case by (simp add: filled_Suc)
qed

lemma randomize_arr_single_eq:
  assumes n: "n < 2 ^ 32" and len: "n \<le> length V"
  shows "randomize_arr_single V n
         = return \<lparr>arr = filled V n, mean = fdiv (real (unat (total n))) (real n)\<rparr>"
proof -
  let ?g = "\<lambda>i s. case s of (V, prev, sum64) \<Rightarrow>
            (V[i := in_range (lcg_a * prev + lcg_b)], lcg_a * prev + lcg_b,
             sum64 + (ucast (in_range (lcg_a * prev + lcg_b)) :: u64))"
  let ?body = "\<lambda>i (V, prev, sum64).
                 let cur = lcg_a * prev + lcg_b in
                 and_then (array_write V i (in_range cur)) (\<lambda>V'.
                 and_then (array_read V' i) (\<lambda>v.
                 return (V', cur, sum64 + (ucast v :: u64))))"
  let ?P = "\<lambda>s. case s of (V', prev, sum64) \<Rightarrow> length V' = length V"
  have body: "?body j s = return (?g j s) \<and> ?P (?g j s)" if j: "j < n" and Ps: "?P s" for j s
  proof -
    obtain V' prev sum64 where s: "s = (V', prev, sum64)" by (cases s)
    have "j < length V'" using j len Ps by (simp add: s)
    then show ?thesis
      using Ps by (simp add: s array_write_def array_read_def Let_def)
  qed
  have "counting_loop n ?body (V, SEED, 0) = return (foldl (\<lambda>s j. ?g j s) (V, SEED, 0) [0..<n])
        \<and> ?P (foldl (\<lambda>s j. ?g j s) (V, SEED, 0) [0..<n])"
  proof (rule counting_loop_unroll[where P = ?P])
    show "n < 2 ^ 32" by fact
    show "?P (V, SEED, 0)" by simp
    show "?body j s = return (?g j s) \<and> ?P (?g j s)" if "j < n" "?P s" for j s
      using that by (rule body)
  qed
  then have "counting_loop n ?body (V, SEED, 0) = return (filled V n, lcg n, total n)"
    by (simp only: single_fold)
  then show ?thesis
    by (simp add: randomize_arr_single_def)
qed

lemma getA_eq:
  assumes "sz + 2 \<le> 2 ^ 32"
  shows "getA sz a = return (a ^ sz)"
proof -
  have pw: "foldl (\<lambda>res j. res * a) r js = r * a ^ length js" for r and js :: "nat list"
    by (induction js arbitrary: r) (simp_all add: mult.assoc)
  have "getA sz a = strided_loop (Suc sz) 1 (\<lambda>i res. return (res * a)) 1 1"
    by (simp add: getA_def strided_loop_def less_Suc_eq_le)
  also have "\<dots> = return (foldl (\<lambda>res j. res * a) 1 (stride_list (Suc sz) 1 1))"
  proof -
    have "strided_loop (Suc sz) 1 (\<lambda>i res. return (res * a)) 1 1
          = return (foldl (\<lambda>res j. res * a) 1 (stride_list (Suc sz) 1 1)) \<and> True"
      by (rule strided_loop_unroll[where P = "\<lambda>_. True"]) (use assms in simp_all)
    then show ?thesis by simp
  qed
  also have "\<dots> = return (a ^ sz)"
    using stride_list_one[of "Suc sz" 1] by (simp add: pw del: upt_Suc)
  finally show ?thesis .
qed

lemma getB_zero: "getB 0 a = return 1"
  by (simp add: getB_def Let_def array_write_def for_loop.simps)

lemma sum_array_filled:
  assumes n: "n < 2 ^ 32" and len: "n \<le> length V"
  shows "sum_array (filled V n) n = return (total n)"
proof -
  let ?g = "\<lambda>i (sum64::u64). sum64 + ucast (filled V n ! i)"
  have "counting_loop n (\<lambda>i sum64. and_then (array_read (filled V n) i)
                                     (\<lambda>v. return (sum64 + (ucast v :: u64)))) 0
        = return (foldl (\<lambda>s j. ?g j s) 0 [0..<n]) \<and> True"
    by (rule counting_loop_unroll[where P = "\<lambda>_. True"])
       (use n len in \<open>simp_all add: array_read_def\<close>)
  moreover have "foldl (\<lambda>s j. ?g j s) 0 [0..<n] = total n"
    unfolding total_def
    by (rule foldl_cong) (use len in \<open>simp_all add: filled_nth\<close>)
  ultimately show ?thesis by (simp add: sum_array_def)
qed

lemma fs_worker_one:
  assumes n: "n < 2 ^ 32" and len: "n \<le> length V"
  shows "fs_worker n (Suc 0) lcg_a lcg_b 0 V = return (filled V n)"
proof -
  let ?g = "\<lambda>i s. case s of (V, prev) \<Rightarrow>
            (V[i := in_range (lcg_a * prev + lcg_b)], lcg_a * prev + lcg_b)"
  let ?body = "\<lambda>i (V, prev).
                 and_then (if i = 0
                           then and_then (getA (u32 (i + 1)) lcg_a) (\<lambda>A.
                                and_then (getB i lcg_a) (\<lambda>B.
                                return (A * prev + B * lcg_b)))
                           else return (lcg_a * prev + lcg_b)) (\<lambda>cur.
                 and_then (array_write V i (in_range cur)) (\<lambda>V'.
                 return (V', cur)))"
  let ?P = "\<lambda>s. case s of (V', prev) \<Rightarrow> length V' = length V"
  have A1: "getA (Suc 0) lcg_a = return lcg_a"
    using getA_eq[of "Suc 0" lcg_a] by simp
  have body: "?body j s = return (?g j s) \<and> ?P (?g j s)" if j: "j < n" and Ps: "?P s" for j s
  proof -
    obtain V' prev where s: "s = (V', prev)" by (cases s)
    have "j < length V'" using j len Ps by (simp add: s)
    then show ?thesis
      using Ps by (simp add: s array_write_def u32_def A1 getB_zero)
  qed
  have "strided_loop n (Suc 0) ?body 0 (V, SEED)
        = return (foldl (\<lambda>s j. ?g j s) (V, SEED) (stride_list n (Suc 0) 0))
        \<and> ?P (foldl (\<lambda>s j. ?g j s) (V, SEED) (stride_list n (Suc 0) 0))"
  proof (rule strided_loop_unroll[where P = ?P])
    show "0 < Suc 0" by simp
    show "n + Suc 0 \<le> 2 ^ 32" using n by simp
    show "?P (V, SEED)" by simp
    show "?body j s = return (?g j s) \<and> ?P (?g j s)" if "j < n" "?P s" for j s
      using that by (rule body)
  qed
  then have "strided_loop n (Suc 0) ?body 0 (V, SEED) = return (filled V n, lcg n)"
    by (simp only: stride_list_one fs_fold)
  then show ?thesis
    by (simp add: fs_worker_def strided_loop_def)
qed

lemma randomize_arr_fs_one:
  assumes n: "n < 2 ^ 32" and len: "n \<le> length V"
  shows "randomize_arr_fs V n 1
         = return \<lparr>arr = filled V n, mean = fdiv (real (unat (total n))) (real n)\<rparr>"
proof -
  have A1: "getA (Suc 0) lcg_a = return lcg_a"
    using getA_eq[of "Suc 0" lcg_a] by simp
  have u0: "u32 4294967296 = 0" by (simp add: u32_def)
  show ?thesis
    by (simp add: randomize_arr_fs_def A1 u0 getB_zero Let_def
        fs_worker_one[OF n len] sum_array_filled[OF n len])
qed

text \<open>
  The sequential generator.  For an array of at least \<open>n\<close> elements, \<open>n < 2\<^sup>3\<^sup>2\<close>,
  \<^verbatim>\<open>randomize_arr_single\<close> returns; it has written
  \<open>V[i] = (a\<^sup>i\<^sup>+\<^sup>1 SEED + b (a\<^sup>i + \<dots> + a + 1)) mod (MAX - MIN + 1) + MIN\<close>, computed on
  \<^verbatim>\<open>uint64_t\<close>, for every \<open>i < n\<close> and left the other elements as they were; the mean it
  returns is the sum of the \<open>n\<close> values written, divided by \<open>n\<close>.
\<close>

theorem randomize_single_values:
  assumes "n < 2 ^ 32" and "n \<le> length V"
  shows "\<exists>r. randomize_arr_single V n = Some (Inr r)
           \<and> length (arr r) = length V
           \<and> (\<forall>i<n. arr r ! i = in_range (lcg_a ^ Suc i * SEED + lcg_b * (\<Sum>k\<le>i. lcg_a ^ k)))
           \<and> (\<forall>i. n \<le> i \<and> i < length V \<longrightarrow> arr r ! i = V ! i)
           \<and> mean r = fdiv (real (unat (\<Sum>i<n. (ucast (arr r ! i) :: u64)))) (real n)"
proof -
  let ?r = "\<lparr>arr = filled V n, mean = fdiv (real (unat (total n))) (real n)\<rparr>"
  have nth: "filled V n ! i = (if i < n then in_range (lcg (Suc i)) else V ! i)" if "i < length V" for i
    using assms(2) that by (rule filled_nth)
  have "total n = (\<Sum>i<n. (ucast (in_range (lcg (Suc i))) :: u64))"
    unfolding total_def
    by (simp add: foldl_add_sum_list interv_sum_list_conv_sum_set_nat atLeast0LessThan)
  also have "\<dots> = (\<Sum>i<n. (ucast (filled V n ! i) :: u64))"
    by (rule sum.cong) (use assms(2) in \<open>simp_all add: nth\<close>)
  finally have tot: "total n = (\<Sum>i<n. (ucast (filled V n ! i) :: u64))" .
  have "randomize_arr_single V n = Some (Inr ?r)"
    using randomize_arr_single_eq[OF assms] by (simp add: return_def)
  moreover have "\<forall>i<n. arr ?r ! i = in_range (lcg_a ^ Suc i * SEED + lcg_b * (\<Sum>k\<le>i. lcg_a ^ k))"
    unfolding lcg_closed_form[symmetric]
    using assms(2) by (simp add: nth del: lcg.simps)
  moreover have "\<forall>i. n \<le> i \<and> i < length V \<longrightarrow> arr ?r ! i = V ! i"
    by (simp add: nth)
  moreover have "mean ?r = fdiv (real (unat (\<Sum>i<n. (ucast (arr ?r ! i) :: u64)))) (real n)"
    by (simp add: tot)
  moreover have "length (arr ?r) = length V" by simp
  ultimately show ?thesis by blast
qed

text \<open>The theorem for an array of three elements; the values written are \<open>58\<close>, \<open>151\<close>, \<open>80\<close>.\<close>

theorem randomize_single_values_witness:
  "\<exists>r. randomize_arr_single [0, 0, 0] 3 = Some (Inr r)
           \<and> length (arr r) = length [0, 0, 0 :: 32 word]
           \<and> (\<forall>i<3. arr r ! i = in_range (lcg_a ^ Suc i * SEED + lcg_b * (\<Sum>k\<le>i. lcg_a ^ k)))
           \<and> (\<forall>i. 3 \<le> i \<and> i < length [0, 0, 0 :: 32 word] \<longrightarrow> arr r ! i = [0, 0, 0] ! i)
           \<and> mean r = fdiv (real (unat (\<Sum>i<3. (ucast (arr r ! i) :: u64)))) (real 3)"
proof -
  have h1: "(3::nat) < 2 ^ 32" by simp
  have h2: "3 \<le> length [0, 0, 0 :: 32 word]" by simp
  show ?thesis by (rule randomize_single_values[OF h1 h2])
qed

text \<open>
  With one worker the parallel generator calls only \<^verbatim>\<open>getB(0, a)\<close>, which stays inside its
  table: for an array of at least \<open>n\<close> elements, \<open>n < 2\<^sup>3\<^sup>2\<close>, it returns what the sequential
  generator returns, the array and the mean.
\<close>

theorem randomize_fs_single_worker:
  assumes "n < 2 ^ 32" and "n \<le> length V"
  shows "\<exists>r. randomize_arr_single V n = Some (Inr r) \<and> randomize_arr_fs V n 1 = Some (Inr r)"
  using randomize_arr_single_eq[OF assms] randomize_arr_fs_one[OF assms]
  by (simp add: return_def)

theorem randomize_fs_single_worker_witness:
  "\<exists>r. randomize_arr_single [0, 0, 0] 3 = Some (Inr r) \<and> randomize_arr_fs [0, 0, 0] 3 1 = Some (Inr r)"
proof -
  have h1: "(3::nat) < 2 ^ 32" by simp
  have h2: "3 \<le> length [0, 0, 0 :: 32 word]" by simp
  show ?thesis by (rule randomize_fs_single_worker[OF h1 h2])
qed

text \<open>
  With \<open>2 \<le> T \<le> 2\<^sup>3\<^sup>2 - 2\<close> workers \<^verbatim>\<open>randomize_arr_fs\<close> never reaches its loops: the call
  \<^verbatim>\<open>getB(T - 1, a)\<close> that fills \<^verbatim>\<open>LUTB\<close> writes past the one element of its table.
\<close>

theorem randomize_fs_overflow:
  assumes "2 \<le> T" and "T + 2 \<le> 2 ^ 32"
  shows "randomize_arr_fs V n T = Some (Inl OutOfBounds)"
proof -
  obtain k where k: "T = Suc k" using assms(1) by (cases T) auto
  have k1: "1 \<le> k" using assms(1) k by simp
  have "k < 2 ^ 32" using assms(2) k by simp
  moreover have "T + (2 ^ 32 - 1) = k + 2 ^ 32" using k by simp
  ultimately have "u32 (T + (2 ^ 32 - 1)) = k"
    unfolding u32_def by (simp only: mod_add_self2 mod_less)
  moreover have "getB k lcg_a = Some (Inl OutOfBounds)"
    using k1 by (rule getB_overflow)
  ultimately show ?thesis
    by (simp add: randomize_arr_fs_def getA_eq[OF assms(2)])
qed

theorem randomize_fs_overflow_witness:
  "randomize_arr_fs [0, 0, 0] 3 4 = Some (Inl OutOfBounds)"
proof -
  have h1: "(2::nat) \<le> 4" by simp
  have h2: "(4::nat) + 2 \<le> 2 ^ 32" by simp
  show ?thesis by (rule randomize_fs_overflow[OF h1 h2])
qed

end
